theory Spec2Isabelle
  imports Main "HOL-Library.Sublist"
begin

section \<open>Strings and arrays as the page script uses them\<close>

text \<open>
  JavaScript strings are modelled as \<^typ>\<open>string\<close> (8-bit characters; a character
  beyond ASCII is its UTF-8 bytes), arrays as lists.
\<close>

text \<open>
  Splitting at every character that satisfies \<open>sep\<close>; \<^verbatim>\<open>s.split(c)\<close> is the case
  of one separator. The result is never the empty array.
\<close>

fun split_by :: "(char \<Rightarrow> bool) \<Rightarrow> string \<Rightarrow> string list" where
  "split_by sep [] = [[]]"
| "split_by sep (x # xs) =
     (if sep x then [] # split_by sep xs
      else (case split_by sep xs of
              [] \<Rightarrow> [[x]]
            | s # ss \<Rightarrow> (x # s) # ss))"

definition split_chr :: "char \<Rightarrow> string \<Rightarrow> string list" where
  "split_chr c s = split_by (\<lambda>x. x = c) s"

text \<open>\<^verbatim>\<open>parts.join(sep)\<close>.\<close>

fun join :: "string \<Rightarrow> string list \<Rightarrow> string" where
  "join sep [] = []"
| "join sep [x] = x"
| "join sep (x # y # ys) = x @ sep @ join sep (y # ys)"

text \<open>\<^verbatim>\<open>s.startsWith(p)\<close> and \<^verbatim>\<open>s.includes(p)\<close>.\<close>

definition startsWith :: "string \<Rightarrow> string \<Rightarrow> bool" where
  "startsWith s p = (take (length p) s = p)"

fun includes_str :: "string \<Rightarrow> string \<Rightarrow> bool" where
  "includes_str [] p = (p = [])"
| "includes_str (x # xs) p = (startsWith (x # xs) p \<or> includes_str xs p)"

section \<open>PathResolver: \<^verbatim>\<open>splitSegments\<close> and \<^verbatim>\<open>toRelative\<close>\<close>

text \<open>
  \<^verbatim>\<open>pathname.replace(/^\/+|\/+$/g, '').split('/').filter(Boolean)\<close>
\<close>

definition stripSlashes :: "string \<Rightarrow> string" where
  "stripSlashes s =
     rev (dropWhile (\<lambda>c. c = CHR ''/'') (rev (dropWhile (\<lambda>c. c = CHR ''/'') s)))"

definition splitSegments :: "string \<Rightarrow> string list" where
  "splitSegments pathname =
     filter (\<lambda>seg. seg \<noteq> []) (split_chr CHR ''/'' (stripSlashes pathname))"

text \<open>
  The \<^verbatim>\<open>while\<close> loop of \<^verbatim>\<open>toRelative\<close>:
  \<^verbatim>\<open>while (i < baseParts.length && i < targetParts.length && baseParts[i] === targetParts[i]) i++;\<close>
\<close>

function commonLoop :: "string list \<Rightarrow> string list \<Rightarrow> nat \<Rightarrow> nat" where
  "commonLoop baseParts targetParts i =
     (if i < length baseParts \<and> i < length targetParts \<and> baseParts ! i = targetParts ! i
      then commonLoop baseParts targetParts (i + 1)
      else i)"
  by pat_completeness auto
termination
  by (relation "measure (\<lambda>(b, t, i). length b - i)") auto

declare commonLoop.simps [simp del]

text \<open>
  The body of \<^verbatim>\<open>toRelative\<close> once the target is split: \<^verbatim>\<open>up\<close> is one
  \<^verbatim>\<open>'..'\<close> per remaining base segment, \<^verbatim>\<open>down\<close> the remaining target
  segments, and \<^verbatim>\<open>rel || '.'\<close> the result.
\<close>

definition relativePath :: "string list \<Rightarrow> string list \<Rightarrow> string" where
  "relativePath baseParts targetParts =
     (let i = commonLoop baseParts targetParts 0;
          up = map (\<lambda>_. ''..'') (drop i baseParts);
          down = drop i targetParts;
          rel = join ''/'' (up @ down)
      in if rel = [] then ''.'' else rel)"

definition toRelative :: "string list \<Rightarrow> string \<Rightarrow> string" where
  "toRelative baseParts targetPath = relativePath baseParts (splitSegments targetPath)"

text \<open>
  The algorithm in the specification's words: \<open>k\<close> is the length of the longest common
  prefix, the result is \<open>len(base) - k\<close> segments \<^verbatim>\<open>..\<close> followed by \<open>target[k:]\<close>,
  joined with \<^verbatim>\<open>/\<close>, and \<^verbatim>\<open>.\<close> when nothing is left.
\<close>

definition relativePath_spec :: "string list \<Rightarrow> string list \<Rightarrow> string" where
  "relativePath_spec base target =
     (let k = length (longest_common_prefix base target);
          segs = replicate (length base - k) ''..'' @ drop k target
      in if segs = [] then ''.'' else join ''/'' segs)"

section \<open>Course selection: \<^verbatim>\<open>parseCourseSelection\<close>\<close>

definition is_digit :: "char \<Rightarrow> bool" where
  "is_digit c = (c \<in> set ''0123456789'')"

text \<open>White space as \<^verbatim>\<open>trim()\<close> and \<^verbatim>\<open>\s\<close> see it, within ASCII.\<close>

definition is_space :: "char \<Rightarrow> bool" where
  "is_space c = (c \<in> set [CHR 0x09, CHR 0x0A, CHR 0x0B, CHR 0x0C, CHR 0x0D, CHR '' ''])"

definition trim :: "string \<Rightarrow> string" where
  "trim s = rev (dropWhile is_space (rev (dropWhile is_space s)))"

text \<open>The value of a string of decimal digits.\<close>

definition dec_value :: "string \<Rightarrow> int" where
  "dec_value s = foldl (\<lambda>acc c. 10 * acc + (int (of_char c) - 48)) 0 s"

text \<open>
  \<^verbatim>\<open>Number(s)\<close> followed by \<^verbatim>\<open>Number.isInteger\<close>: \<open>Some n\<close> when the
  number is the integer \<open>n\<close>, \<open>None\<close> when it is \<^verbatim>\<open>NaN\<close>, infinite or has a
  fraction. On a string of digits the number is its decimal value, infinite from
  \<open>2^1024 - 2^970\<close> on. Every other literal form (sign, fraction, exponent, hexadecimal,
  \<^verbatim>\<open>Infinity\<close>) is left to the parameter \<open>other\<close>. Values are exact: the
  selection is bounded by the number of courses, far below \<open>2^53\<close>.
\<close>

definition Number_isInteger :: "(string \<Rightarrow> int option) \<Rightarrow> string \<Rightarrow> int option" where
  "Number_isInteger other s =
     (if s \<noteq> [] \<and> list_all is_digit s
      then (if dec_value s < 2 ^ 1024 - 2 ^ 970 then Some (dec_value s) else None)
      else other s)"

text \<open>
  \<^verbatim>\<open>chunk.match(/^(\d+)\s*-\s*(\d+)$/)\<close>: the two groups when the chunk matches.
\<close>

definition matchRange :: "string \<Rightarrow> (string \<times> string) option" where
  "matchRange chunk =
     (let d1 = takeWhile is_digit chunk;
          r1 = dropWhile is_space (dropWhile is_digit chunk)
      in if d1 = [] then None
         else (case r1 of
                 [] \<Rightarrow> None
               | c # r2 \<Rightarrow>
                   if c \<noteq> CHR ''-'' then None
                   else (let d2 = dropWhile is_space r2
                         in if d2 \<noteq> [] \<and> list_all is_digit d2 then Some (d1, d2) else None)))"

datatype selection_error =
    NoValidSelections
  | InvalidRange string
  | RangeOutOfBounds string int
  | InvalidSelection string int

text \<open>\<^verbatim>\<open>Set.add\<close>: a set keeps its elements in insertion order.\<close>

definition set_add :: "int \<Rightarrow> int list \<Rightarrow> int list" where
  "set_add x sel = (if x \<in> set sel then sel else sel @ [x])"

text \<open>One turn of the loop \<^verbatim>\<open>for (const chunk of chunks)\<close>.\<close>

definition selectChunk ::
  "(string \<Rightarrow> int option) \<Rightarrow> int \<Rightarrow> string \<Rightarrow> int list \<Rightarrow> selection_error + int list" where
  "selectChunk other mx chunk selections =
     (case matchRange chunk of
        Some (g1, g2) \<Rightarrow>
          (case (Number_isInteger other g1, Number_isInteger other g2) of
             (Some s, Some e) \<Rightarrow>
               (let start = (if s > e then e else s);
                    endN = (if s > e then s else e)
                in if start < 1 \<or> endN > mx then Inl (RangeOutOfBounds chunk mx)
                   else Inr (foldl (\<lambda>sel i. set_add (i - 1) sel) selections [start..endN]))
           | _ \<Rightarrow> Inl (InvalidRange chunk))
      | None \<Rightarrow>
          (case Number_isInteger other chunk of
             None \<Rightarrow> Inl (InvalidSelection chunk mx)
           | Some num \<Rightarrow>
               if num < 1 \<or> num > mx then Inl (InvalidSelection chunk mx)
               else Inr (set_add (num - 1) selections)))"

fun selectChunks ::
  "(string \<Rightarrow> int option) \<Rightarrow> int \<Rightarrow> string list \<Rightarrow> int list \<Rightarrow> selection_error + int list" where
  "selectChunks other mx [] selections = Inr selections"
| "selectChunks other mx (chunk # chunks) selections =
     (case selectChunk other mx chunk selections of
        Inl err \<Rightarrow> Inl err
      | Inr selections' \<Rightarrow> selectChunks other mx chunks selections')"

definition selectionChunks :: "string \<Rightarrow> string list" where
  "selectionChunks input = filter (\<lambda>s. s \<noteq> []) (map trim (split_chr CHR '','' input))"

definition parseCourseSelection ::
  "(string \<Rightarrow> int option) \<Rightarrow> string \<Rightarrow> int \<Rightarrow> selection_error + int list" where
  "parseCourseSelection other input mx =
     (let chunks = selectionChunks input
      in if chunks = [] then Inl NoValidSelections
         else (case selectChunks other mx chunks [] of
                 Inl err \<Rightarrow> Inl err
               | Inr selections \<Rightarrow> Inr (sort selections)))"

text \<open>The loop invariant of the selection set: no duplicate, every index in range.\<close>

definition sel_inv :: "int \<Rightarrow> int list \<Rightarrow> bool" where
  "sel_inv mx sel = (distinct sel \<and> list_all (\<lambda>i. 0 \<le> i \<and> i \<le> mx - 1) sel)"

section \<open>PageExtractor: \<^verbatim>\<open>evaluateWithRetry\<close>\<close>

text \<open>
  A promise settles with a value or rejects with an error; an error is modelled by its
  message.
\<close>

datatype 'a outcome = Resolved 'a | Rejected string

text \<open>Case folding of the \<^verbatim>\<open>i\<close> flag, which within ASCII touches letters only.\<close>

definition ascii_lower :: "char \<Rightarrow> char" where
  "ascii_lower c =
     (case map_of (zip ''ABCDEFGHIJKLMNOPQRSTUVWXYZ'' ''abcdefghijklmnopqrstuvwxyz'') c of
        None \<Rightarrow> c
      | Some l \<Rightarrow> l)"

definition includes_ci :: "string \<Rightarrow> string \<Rightarrow> bool" where
  "includes_ci s p = includes_str (map ascii_lower s) (map ascii_lower p)"

text \<open>
  \<^verbatim>\<open>/Execution context was destroyed|Cannot find context with specified id/i.test(message)\<close>
\<close>

definition destroyed :: "string \<Rightarrow> bool" where
  "destroyed message =
     (includes_ci message ''Execution context was destroyed''
      \<or> includes_ci message ''Cannot find context with specified id'')"

datatype event =
    LogRetrying
  | LogSkippedLinks nat
  | LogIndexDone "string list"
  | LogIndexNotCaptured
  | LogNoUrls string
  | LogDownloading nat string
  | LogSkipExisting "string list"
  | LogDone "string list"
  | LogFail string string
  | LogNavigating string
  | LogReportSaved "string list"
  | LogAllDone
  | LogFatal string

text \<open>
  The loop \<^verbatim>\<open>for (let attempt = 0; attempt < retries; attempt++)\<close>. The
  \<open>k\<close>-th call of \<^verbatim>\<open>page.evaluate\<close> settles as \<open>evaluate k\<close>. The result is what
  the function returns (\<open>Inr\<close>) or throws (\<open>Inl\<close>, the message), with the number of
  calls of \<^verbatim>\<open>page.evaluate\<close> made and the lines logged. The wait for the page
  between two attempts swallows its own failure and leaves no trace.
\<close>

function evaluateAttempts ::
  "(nat \<Rightarrow> 'a outcome) \<Rightarrow> nat \<Rightarrow> nat \<Rightarrow> event list \<Rightarrow> (string + 'a) \<times> nat \<times> event list" where
  "evaluateAttempts evaluate retries attempt logged =
     (if attempt < retries then
        (case evaluate attempt of
           Resolved v \<Rightarrow> (Inr v, attempt + 1, logged)
         | Rejected message \<Rightarrow>
             if \<not> destroyed message \<or> attempt = retries - 1
             then (Inl message, attempt + 1, logged)
             else evaluateAttempts evaluate retries (attempt + 1) (logged @ [LogRetrying]))
      else (Inl ''Evaluation retries exceeded'', attempt, logged))"
  by pat_completeness auto
termination
  by (relation "measure (\<lambda>(e, retries, attempt, l). retries - attempt)") auto

declare evaluateAttempts.simps [simp del]

text \<open>\<^verbatim>\<open>evaluateWithRetry(fn, arg)\<close> with the default \<^verbatim>\<open>retries = 3\<close>.\<close>

definition evaluateWithRetry :: "(nat \<Rightarrow> 'a outcome) \<Rightarrow> (string + 'a) \<times> nat \<times> event list" where
  "evaluateWithRetry evaluate = evaluateAttempts evaluate 3 0 []"

section \<open>The platform's \<^verbatim>\<open>URL\<close>\<close>

text \<open>
  \<^verbatim>\<open>new URL(input, base)\<close> follows the URL Standard's basic parser. The model
  covers what the mirrored site uses: the schemes \<^verbatim>\<open>http\<close> and \<^verbatim>\<open>https\<close>, an
  authority that is a host with an optional port, a host that is a domain of ASCII
  letters, digits, \<^verbatim>\<open>-\<close>, \<^verbatim>\<open>_\<close> and \<^verbatim>\<open>.\<close> or an IPv4 address written as
  four decimal numbers, and every form of relative reference. An input outside this
  fragment (another scheme, credentials, an IPv6 or percent-encoded host, an IPv4 address
  in another notation) is reported as unparsable, although the platform may accept it:
  the model is one \<^verbatim>\<open>URL\<close> class among others. What is stated of it holds of the
  platform for the URLs of the fragment; what depends on which strings parse is stated
  for every \<^verbatim>\<open>URL\<close> class, in the section on the passes.
\<close>

record url =
  scheme :: string
  hostname :: string
  port :: string
  segments :: "string list"
  query :: "string option"
  fragment :: "string option"

subsection \<open>Character classes and percent-encoding\<close>

definition code :: "char \<Rightarrow> nat" where
  "code c = of_char c"

definition is_alpha :: "char \<Rightarrow> bool" where
  "is_alpha c = (c \<in> set ''abcdefghijklmnopqrstuvwxyzABCDEFGHIJKLMNOPQRSTUVWXYZ'')"

definition is_alnum :: "char \<Rightarrow> bool" where
  "is_alnum c = (is_alpha c \<or> is_digit c)"

definition is_hex :: "char \<Rightarrow> bool" where
  "is_hex c = (c \<in> set ''0123456789abcdefABCDEF'')"

definition hex_value :: "char \<Rightarrow> nat" where
  "hex_value c =
     (case map_of (zip ''0123456789abcdefABCDEF''
                       [0, 1, 2, 3, 4, 5, 6, 7, 8, 9, 10, 11, 12, 13, 14, 15, 10, 11, 12, 13, 14, 15]) c of
        None \<Rightarrow> 0
      | Some v \<Rightarrow> v)"

definition hex_digit :: "nat \<Rightarrow> char" where
  "hex_digit n = ''0123456789ABCDEF'' ! (n mod 16)"

definition pct :: "char \<Rightarrow> string" where
  "pct c = [CHR ''%'', hex_digit (code c div 16), hex_digit (code c mod 16)]"

definition c0_control_set :: "char \<Rightarrow> bool" where
  "c0_control_set c = (code c < 32 \<or> code c > 126)"

definition fragment_set :: "char \<Rightarrow> bool" where
  "fragment_set c = (c0_control_set c \<or> c \<in> set [CHR '' '', CHR 0x22, CHR ''<'', CHR ''>'', CHR 0x60])"

definition query_set :: "char \<Rightarrow> bool" where
  "query_set c = (c0_control_set c \<or> c \<in> set [CHR '' '', CHR 0x22, CHR ''#'', CHR ''<'', CHR ''>''])"

definition special_query_set :: "char \<Rightarrow> bool" where
  "special_query_set c = (query_set c \<or> c = CHR 0x27)"

definition path_set :: "char \<Rightarrow> bool" where
  "path_set c = (query_set c \<or> c \<in> set [CHR ''?'', CHR ''^'', CHR 0x60, CHR ''{'', CHR ''}''])"

definition percent_encode :: "(char \<Rightarrow> bool) \<Rightarrow> string \<Rightarrow> string" where
  "percent_encode enc s = concat (map (\<lambda>c. if enc c then pct c else [c]) s)"

subsection \<open>The pieces of the parser\<close>

definition c0_or_space :: "char \<Rightarrow> bool" where
  "c0_or_space c = (code c \<le> 32)"

definition tab_or_newline :: "char \<Rightarrow> bool" where
  "tab_or_newline c = (c \<in> set [CHR 0x09, CHR 0x0A, CHR 0x0D])"

definition clean_input :: "string \<Rightarrow> string" where
  "clean_input s =
     filter (\<lambda>c. \<not> tab_or_newline c)
       (rev (dropWhile c0_or_space (rev (dropWhile c0_or_space s))))"

definition is_slash :: "char \<Rightarrow> bool" where
  "is_slash c = (c = CHR ''/'' \<or> c = CHR 0x5C)"

text \<open>The scheme of an input that starts with one, in lower case, and what follows the colon.\<close>

definition split_scheme :: "string \<Rightarrow> (string \<times> string) option" where
  "split_scheme s =
     (case s of
        [] \<Rightarrow> None
      | c # cs \<Rightarrow>
          if \<not> is_alpha c then None
          else (let name = takeWhile (\<lambda>x. is_alnum x \<or> x \<in> set ''+-.'') s;
                    rest = dropWhile (\<lambda>x. is_alnum x \<or> x \<in> set ''+-.'') s
                in (case rest of
                      [] \<Rightarrow> None
                    | d # ds \<Rightarrow> if d = CHR '':'' then Some (map ascii_lower name, ds) else None)))"

definition is_double_dot :: "string \<Rightarrow> bool" where
  "is_double_dot seg = (map ascii_lower seg \<in> set [''..'', ''.%2e'', ''%2e.'', ''%2e%2e''])"

definition is_single_dot :: "string \<Rightarrow> bool" where
  "is_single_dot seg = (map ascii_lower seg \<in> set [''.'', ''%2e''])"

text \<open>
  The path state, one buffer at a time: \<open>pieces\<close> are the stretches between slashes (the
  last one ends the path), \<open>acc\<close> is the path so far.
\<close>

fun path_state :: "string list \<Rightarrow> string list \<Rightarrow> string list" where
  "path_state [] acc = acc"
| "path_state [p] acc =
     (let buffer = percent_encode path_set p
      in if is_double_dot buffer then butlast acc @ [[]]
         else if is_single_dot buffer then acc @ [[]]
         else acc @ [buffer])"
| "path_state (p # q # ps) acc =
     (let buffer = percent_encode path_set p
      in path_state (q # ps)
           (if is_double_dot buffer then butlast acc
            else if is_single_dot buffer then acc
            else acc @ [buffer]))"

text \<open>The path start state: one leading slash is consumed.\<close>

definition parse_path :: "string \<Rightarrow> string list \<Rightarrow> string list" where
  "parse_path raw acc =
     path_state (split_by is_slash (case raw of [] \<Rightarrow> [] | c # cs \<Rightarrow> if is_slash c then cs else raw)) acc"

text \<open>The host parser, on the fragment the model covers.\<close>

definition is_ipv4_part :: "string \<Rightarrow> bool" where
  "is_ipv4_part s =
     (s \<noteq> [] \<and> list_all is_digit s \<and> (s = ''0'' \<or> hd s \<noteq> CHR ''0'') \<and> length s \<le> 3
      \<and> dec_value s \<le> 255)"

text \<open>A label that reads as a number: decimal digits, or \<^verbatim>\<open>0x\<close> and hexadecimal digits.\<close>

definition number_label :: "string \<Rightarrow> bool" where
  "number_label l =
     ((l \<noteq> [] \<and> list_all is_digit l)
      \<or> (take 2 (map ascii_lower l) = ''0x'' \<and> list_all is_hex (drop 2 l)))"

definition ends_in_number :: "string \<Rightarrow> bool" where
  "ends_in_number h =
     (let parts = split_chr CHR ''.'' h;
          parts' = (if last parts = [] then butlast parts else parts)
      in parts' \<noteq> [] \<and> number_label (last parts'))"

definition host_char :: "char \<Rightarrow> bool" where
  "host_char c = (is_alnum c \<or> c \<in> set ''-._'')"

definition parse_host :: "string \<Rightarrow> string option" where
  "parse_host h =
     (if h = [] \<or> \<not> list_all host_char h then None
      else if ends_in_number h
      then (let parts = split_chr CHR ''.'' h
            in if length parts = 4 \<and> list_all is_ipv4_part parts then Some h else None)
      else Some (map ascii_lower h))"

definition default_port :: "string \<Rightarrow> string" where
  "default_port sch = (if sch = ''http'' then ''80'' else if sch = ''https'' then ''443'' else [])"

text \<open>The port state: decimal digits, at most 65535, the scheme's default port dropped.\<close>

definition parse_port :: "string \<Rightarrow> string \<Rightarrow> string option" where
  "parse_port sch digits =
     (if \<not> list_all is_digit digits then None
      else if digits = [] then Some []
      else if dec_value digits > 65535 then None
      else (let p = (case dropWhile (\<lambda>c. c = CHR ''0'') digits of [] \<Rightarrow> ''0'' | d # ds \<Rightarrow> d # ds)
            in Some (if p = default_port sch then [] else p)))"

text \<open>The query and fragment states, on what follows the path.\<close>

definition parse_query :: "string \<Rightarrow> string option" where
  "parse_query rest =
     (case rest of
        [] \<Rightarrow> None
      | c # cs \<Rightarrow>
          if c = CHR ''?''
          then Some (percent_encode special_query_set (takeWhile (\<lambda>x. x \<noteq> CHR ''#'') cs))
          else None)"

definition parse_fragment :: "string \<Rightarrow> string option" where
  "parse_fragment rest =
     (case dropWhile (\<lambda>x. x \<noteq> CHR ''#'') rest of
        [] \<Rightarrow> None
      | c # cs \<Rightarrow> Some (percent_encode fragment_set cs))"

definition path_end :: "char \<Rightarrow> bool" where
  "path_end c = (c = CHR ''?'' \<or> c = CHR ''#'')"

text \<open>From the authority state on: host, port, path, query and fragment.\<close>

definition parse_authority :: "string \<Rightarrow> string \<Rightarrow> url option" where
  "parse_authority sch s =
     (let auth = takeWhile (\<lambda>c. \<not> is_slash c \<and> \<not> path_end c) s;
          rest = dropWhile (\<lambda>c. \<not> is_slash c \<and> \<not> path_end c) s;
          raw = takeWhile (\<lambda>c. \<not> path_end c) rest;
          tail = dropWhile (\<lambda>c. \<not> path_end c) rest
      in if CHR ''@'' \<in> set auth then None
         else (case parse_host (takeWhile (\<lambda>c. c \<noteq> CHR '':'') auth) of
                 None \<Rightarrow> None
               | Some h \<Rightarrow>
                   (case parse_port sch (drop 1 (dropWhile (\<lambda>c. c \<noteq> CHR '':'') auth)) of
                      None \<Rightarrow> None
                    | Some p \<Rightarrow>
                        Some \<lparr>scheme = sch, hostname = h, port = p,
                              segments = parse_path raw [],
                              query = parse_query tail, fragment = parse_fragment tail\<rparr>)))"

text \<open>The relative state: the reference is resolved against the base.\<close>

definition parse_relative :: "url \<Rightarrow> string \<Rightarrow> url option" where
  "parse_relative base s =
     (let raw = takeWhile (\<lambda>c. \<not> path_end c) s;
          tail = dropWhile (\<lambda>c. \<not> path_end c) s
      in (case s of
            [] \<Rightarrow> Some (base\<lparr>fragment := None\<rparr>)
          | c # cs \<Rightarrow>
              if is_slash c then
                (case cs of
                   [] \<Rightarrow> Some (base\<lparr>segments := parse_path raw [], query := None, fragment := None\<rparr>)
                 | d # ds \<Rightarrow>
                     if is_slash d then parse_authority (scheme base) (dropWhile is_slash ds)
                     else Some (base\<lparr>segments := parse_path raw [],
                                     query := parse_query tail, fragment := parse_fragment tail\<rparr>))
              else if c = CHR ''?'' then
                Some (base\<lparr>query := parse_query tail, fragment := parse_fragment tail\<rparr>)
              else if c = CHR ''#'' then
                Some (base\<lparr>fragment := parse_fragment tail\<rparr>)
              else
                Some (base\<lparr>segments := path_state (split_by is_slash raw) (butlast (segments base)),
                           query := parse_query tail, fragment := parse_fragment tail\<rparr>)))"

text \<open>
  \<^verbatim>\<open>new URL(input, base)\<close>; \<open>None\<close> is the \<^verbatim>\<open>TypeError\<close>, or an input outside
  the fragment.
\<close>

definition parseURL :: "string \<Rightarrow> url option \<Rightarrow> url option" where
  "parseURL input base =
     (let s = clean_input input
      in (case split_scheme s of
            Some (sch, rest) \<Rightarrow>
              if sch \<noteq> ''http'' \<and> sch \<noteq> ''https'' then None
              else (case base of
                      None \<Rightarrow> parse_authority sch (dropWhile is_slash rest)
                    | Some b \<Rightarrow>
                        if scheme b = sch then parse_relative b rest
                        else parse_authority sch (dropWhile is_slash rest))
          | None \<Rightarrow>
              (case base of
                 None \<Rightarrow> None
               | Some b \<Rightarrow> parse_relative b s)))"

subsection \<open>Getters and setters\<close>

text \<open>The path of a URL with a host: every segment after a slash.\<close>

definition path_string :: "string list \<Rightarrow> string" where
  "path_string segs = concat (map (\<lambda>seg. CHR ''/'' # seg) segs)"

definition pathname :: "url \<Rightarrow> string" where
  "pathname u = path_string (segments u)"

definition search :: "url \<Rightarrow> string" where
  "search u = (case query u of None \<Rightarrow> [] | Some q \<Rightarrow> if q = [] then [] else CHR ''?'' # q)"

definition hash :: "url \<Rightarrow> string" where
  "hash u = (case fragment u of None \<Rightarrow> [] | Some f \<Rightarrow> if f = [] then [] else CHR ''#'' # f)"

definition origin :: "url \<Rightarrow> string" where
  "origin u = scheme u @ ''://'' @ hostname u @ (if port u = [] then [] else CHR '':'' # port u)"

text \<open>\<^verbatim>\<open>u.href\<close>, which is also \<^verbatim>\<open>u.toString()\<close>.\<close>

definition href :: "url \<Rightarrow> string" where
  "href u = origin u @ pathname u
     @ (case query u of None \<Rightarrow> [] | Some q \<Rightarrow> CHR ''?'' # q)
     @ (case fragment u of None \<Rightarrow> [] | Some f \<Rightarrow> CHR ''#'' # f)"

text \<open>
  \<^verbatim>\<open>u.hostname = v\<close>: the host state run on \<open>v\<close>; a colon, an empty host or a host
  that does not parse leaves the URL as it is.
\<close>

definition set_hostname :: "url \<Rightarrow> string \<Rightarrow> url" where
  "set_hostname u v =
     (let s = filter (\<lambda>c. \<not> tab_or_newline c) v;
          buffer = takeWhile (\<lambda>c. \<not> is_slash c \<and> \<not> path_end c \<and> c \<noteq> CHR '':'') s;
          rest = dropWhile (\<lambda>c. \<not> is_slash c \<and> \<not> path_end c \<and> c \<noteq> CHR '':'') s
      in if take 1 rest = '':'' then u
         else (case parse_host buffer of None \<Rightarrow> u | Some h \<Rightarrow> u\<lparr>hostname := h\<rparr>))"

text \<open>\<^verbatim>\<open>u.port = ''\<close>.\<close>

definition clear_port :: "url \<Rightarrow> url" where
  "clear_port u = u\<lparr>port := []\<rparr>"

text \<open>
  \<^verbatim>\<open>u.pathname = v\<close>: the path is parsed again from the path start state, where
  \<^verbatim>\<open>?\<close> and \<^verbatim>\<open>#\<close> are encoded instead of ending the path.
\<close>

definition set_pathname :: "url \<Rightarrow> string \<Rightarrow> url" where
  "set_pathname u v = u\<lparr>segments := parse_path (filter (\<lambda>c. \<not> tab_or_newline c) v) []\<rparr>"

section \<open>\<^verbatim>\<open>decodeURIComponent\<close>, \<^verbatim>\<open>decodeURI\<close> and \<^verbatim>\<open>path.join\<close>\<close>

text \<open>
  The escapes of a string, left to right: a character, an escape \<^verbatim>\<open>%XY\<close> with its
  two digits, or a \<^verbatim>\<open>%\<close> that two hexadecimal digits do not follow.
\<close>

datatype token = Lit char | Esc char char | Bad

fun tokens :: "string \<Rightarrow> token list" where
  "tokens [] = []"
| "tokens (c # cs) =
     (if c \<noteq> CHR ''%'' then Lit c # tokens cs
      else (case cs of
              h1 # h2 # rest \<Rightarrow> if is_hex h1 \<and> is_hex h2 then Esc h1 h2 # tokens rest else [Bad]
            | _ \<Rightarrow> [Bad]))"

text \<open>
  The first byte of a UTF-8 sequence of several bytes: how many bytes follow, and the
  range of the first of them (the well-formed sequences of the Unicode standard).
\<close>

definition utf8_lead :: "nat \<Rightarrow> (nat \<times> nat \<times> nat) option" where
  "utf8_lead b =
     (if 0xC2 \<le> b \<and> b \<le> 0xDF then Some (1, 0x80, 0xBF)
      else if b = 0xE0 then Some (2, 0xA0, 0xBF)
      else if b = 0xED then Some (2, 0x80, 0x9F)
      else if 0xE1 \<le> b \<and> b \<le> 0xEF then Some (2, 0x80, 0xBF)
      else if b = 0xF0 then Some (3, 0x90, 0xBF)
      else if 0xF1 \<le> b \<and> b \<le> 0xF3 then Some (3, 0x80, 0xBF)
      else if b = 0xF4 then Some (3, 0x80, 0x8F)
      else None)"

text \<open>
  The abstract operation \<^verbatim>\<open>Decode\<close>: \<open>reserved\<close> are the characters whose escapes
  stay, \<open>pending\<close> the bytes the current sequence still needs, \<open>lo\<close> and \<open>hi\<close> the range
  of the next one. \<open>None\<close> is the \<^verbatim>\<open>URIError\<close>.
\<close>

fun decode_tokens :: "string \<Rightarrow> nat \<Rightarrow> nat \<Rightarrow> nat \<Rightarrow> token list \<Rightarrow> string option" where
  "decode_tokens reserved pending lo hi [] = (if pending = 0 then Some [] else None)"
| "decode_tokens reserved pending lo hi (Bad # ts) = None"
| "decode_tokens reserved pending lo hi (Lit c # ts) =
     (if pending = 0 then map_option (\<lambda>r. c # r) (decode_tokens reserved 0 lo hi ts) else None)"
| "decode_tokens reserved pending lo hi (Esc h1 h2 # ts) =
     (let b = 16 * hex_value h1 + hex_value h2
      in if pending = 0 then
           (if b < 128 then
              (if char_of b \<in> set reserved
               then map_option (\<lambda>r. CHR ''%'' # h1 # h2 # r) (decode_tokens reserved 0 lo hi ts)
               else map_option (\<lambda>r. char_of b # r) (decode_tokens reserved 0 lo hi ts))
            else (case utf8_lead b of
                    None \<Rightarrow> None
                  | Some (n, lo', hi') \<Rightarrow>
                      map_option (\<lambda>r. char_of b # r) (decode_tokens reserved n lo' hi' ts)))
         else if lo \<le> b \<and> b \<le> hi
         then map_option (\<lambda>r. char_of b # r) (decode_tokens reserved (pending - 1) 0x80 0xBF ts)
         else None)"

definition decodeURIComponent :: "string \<Rightarrow> string option" where
  "decodeURIComponent s = decode_tokens [] 0 0 0 (tokens s)"

definition decodeURI :: "string \<Rightarrow> string option" where
  "decodeURI s = decode_tokens '';/?:@&=+$,#'' 0 0 0 (tokens s)"

text \<open>
  A file path is the list of its segments below the root of the file system, with a mark
  for a trailing slash. \<^verbatim>\<open>path.join(dir, ...parts)\<close> joins with \<^verbatim>\<open>/\<close> and
  normalises: empty and \<^verbatim>\<open>.\<close> segments go, \<^verbatim>\<open>..\<close> leaves the directory it
  follows (POSIX paths; \<open>dir\<close> is absolute).
\<close>

type_synonym path = "string list \<times> bool"

fun normalize_segments :: "string list \<Rightarrow> string list \<Rightarrow> string list" where
  "normalize_segments acc [] = acc"
| "normalize_segments acc (s # ss) =
     normalize_segments
       (if s = [] \<or> s = ''.'' then acc else if s = ''..'' then butlast acc else acc @ [s]) ss"

definition path_join :: "string list \<Rightarrow> string list \<Rightarrow> path" where
  "path_join dir parts =
     (let joined = concat (map (split_chr CHR ''/'') (filter (\<lambda>p. p \<noteq> []) parts));
          segs = normalize_segments dir joined
      in (segs, segs \<noteq> [] \<and> joined \<noteq> [] \<and> last joined = []))"

text \<open>\<^verbatim>\<open>path.dirname\<close> of a normalised absolute path.\<close>

definition dirname :: "path \<Rightarrow> string list" where
  "dirname p = butlast (fst p)"

section \<open>\<^verbatim>\<open>localPathFromUrl\<close>\<close>

datatype js_error = TypeError | URIError | FsError | NetError string | EvalError string

text \<open>
  The decoded segments that \<^verbatim>\<open>localPathFromUrl\<close> hands to \<^verbatim>\<open>path.join\<close>, as
  in \<^verbatim>\<open>src/index.ts\<close> and with the model of \<^verbatim>\<open>URL\<close>. The function over any
  \<^verbatim>\<open>URL\<close> class and for both variants of the script is \<open>localPathFromUrl_on\<close>.
\<close>

fun decode_all :: "string list \<Rightarrow> string list option" where
  "decode_all [] = Some []"
| "decode_all (seg # segs) =
     (case decodeURIComponent seg of
        None \<Rightarrow> None
      | Some d \<Rightarrow> map_option (\<lambda>ds. d # ds) (decode_all segs))"

definition localSegments :: "string \<Rightarrow> js_error + string list" where
  "localSegments url_str =
     (case parseURL url_str None of
        None \<Rightarrow> Inl TypeError
      | Some u \<Rightarrow>
          (let parts = filter (\<lambda>s. s \<noteq> []) (split_chr CHR ''/'' (pathname u));
               parts' = (case parts of
                           [] \<Rightarrow> []
                         | p # ps \<Rightarrow> if p = ''course_builder'' then ps else parts)
           in (case decode_all parts' of
                 None \<Rightarrow> Inl URIError
               | Some decoded \<Rightarrow> Inr decoded)))"

text \<open>\<open>root\<close> is \<^verbatim>\<open>DOWNLOAD_ROOT\<close>, the absolute path of \<^verbatim>\<open>./dl/\<close>.\<close>

definition localPathFromUrl :: "string list \<Rightarrow> string \<Rightarrow> js_error + path" where
  "localPathFromUrl root url_str =
     (case localSegments url_str of
        Inl err \<Rightarrow> Inl err
      | Inr decoded \<Rightarrow> Inr (path_join root decoded))"

section \<open>The script evaluated in the page\<close>

text \<open>
  The fields of \<^verbatim>\<open>InjectionConfig\<close> that the page script reads. The field
  \<^verbatim>\<open>yearExpSource\<close> is always the constant \<^verbatim>\<open>YEAR_FIX_REGEX_SOURCE\<close>, whose
  matcher is \<open>year_at\<close> below.
\<close>

record config =
  applyYearRewrite :: bool
  yearPrefix :: string
  courseYearDigits :: string
  staffPrefix :: string
  forceHostReplacement :: bool
  hostNeedingFix :: string
  hostReplacement :: string

definition STAFF_PREFIX :: string where
  "STAFF_PREFIX = ''https://www.math.cuhk.edu.hk/~''"

definition PMA_IP :: string where
  "PMA_IP = ''137.189.49.33''"

definition PMA_NAME :: string where
  "PMA_NAME = ''www.math.cuhk.edu.hk''"

definition ALLOWED_HOSTS :: "string list" where
  "ALLOWED_HOSTS = [PMA_NAME, PMA_IP]"

text \<open>
  \<^verbatim>\<open>/(\/course_builder\/)(?:_?\d{4})(\/)/i\<close> matched at the start of \<open>s\<close>: the first
  group as it stands in \<open>s\<close>, and what follows the match. The second group is always
  \<^verbatim>\<open>/\<close>.
\<close>

definition year_at :: "string \<Rightarrow> (string \<times> string) option" where
  "year_at s =
     (if map ascii_lower (take 16 s) = ''/course_builder/'' then
        (let r = drop 16 s;
             y = (if take 1 r = ''_'' then drop 1 r else r)
         in if length (take 4 y) = 4 \<and> list_all is_digit (take 4 y) \<and> take 1 (drop 4 y) = ''/''
            then Some (take 16 s, drop 5 y)
            else None)
      else None)"

text \<open>
  \<^verbatim>\<open>pathname.replace(yearExp, (_match, p1, p2) => p1 + yearPrefix + courseYearDigits + p2)\<close>:
  the leftmost match is replaced, \<open>r\<close> is the prefix followed by the digits.
\<close>

fun replace_year :: "string \<Rightarrow> string \<Rightarrow> string" where
  "replace_year r [] = []"
| "replace_year r (c # cs) =
     (case year_at (c # cs) of
        Some (p1, rest) \<Rightarrow> p1 @ r @ ''/'' @ rest
      | None \<Rightarrow> c # replace_year r cs)"

text \<open>
  \<^verbatim>\<open>normalizeUrl(href)\<close> with the model of \<^verbatim>\<open>URL\<close>; \<open>loc\<close> is
  \<^verbatim>\<open>location\<close>, \<open>None\<close> is \<^verbatim>\<open>null\<close>.
\<close>

definition normalizeUrl :: "config \<Rightarrow> url \<Rightarrow> string \<Rightarrow> url option" where
  "normalizeUrl cfg loc h =
     (case parseURL h (Some loc) of
        None \<Rightarrow> None
      | Some target \<Rightarrow>
          (let fixed_host =
                 (if forceHostReplacement cfg \<and> hostname target = hostNeedingFix cfg
                  then clear_port (set_hostname target (hostReplacement cfg))
                  else target);
               fixed =
                 (if applyYearRewrite cfg
                  then set_pathname fixed_host
                         (replace_year (yearPrefix cfg @ courseYearDigits cfg) (pathname fixed_host))
                  else fixed_host)
           in Some fixed))"

section \<open>The pipeline: \<^verbatim>\<open>usableUrls\<close>\<close>

text \<open>
  The predicate of \<^verbatim>\<open>downloadUrls.filter(...)\<close> in \<^verbatim>\<open>processCourse\<close>, with the
  model of \<^verbatim>\<open>URL\<close>.
\<close>

definition usable :: "string \<Rightarrow> bool" where
  "usable url_str =
     (if startsWith url_str STAFF_PREFIX then False
      else (case parseURL url_str None of
              None \<Rightarrow> False
            | Some u \<Rightarrow>
                if hostname u \<notin> set ALLOWED_HOSTS then False
                else if \<not> startsWith (pathname u) ''/course_builder/'' then False
                else True))"

definition usableUrls :: "string list \<Rightarrow> string list" where
  "usableUrls urls = filter usable urls"

section \<open>FetchPipeline: the file system and \<^verbatim>\<open>downloadFile\<close>\<close>

datatype node = File string | Dir

type_synonym fs = "string list \<rightharpoonup> node"

text \<open>The root directory always exists.\<close>

definition node_at :: "fs \<Rightarrow> string list \<Rightarrow> node option" where
  "node_at fsys segs = (if segs = [] then Some Dir else fsys segs)"

text \<open>\<^verbatim>\<open>fs.existsSync\<close>: a path with a trailing slash only names a directory.\<close>

definition existsSync :: "fs \<Rightarrow> path \<Rightarrow> bool" where
  "existsSync fsys p =
     (case node_at fsys (fst p) of
        None \<Rightarrow> False
      | Some Dir \<Rightarrow> True
      | Some (File _) \<Rightarrow> \<not> snd p)"

text \<open>
  \<^verbatim>\<open>fs.promises.mkdir(dir, { recursive: true })\<close>: \<open>pre\<close> is the part of the path
  already there. It fails, and changes nothing, when a file stands on the way.
\<close>

fun mkdir_from :: "fs \<Rightarrow> string list \<Rightarrow> string list \<Rightarrow> fs option" where
  "mkdir_from fsys pre [] = Some fsys"
| "mkdir_from fsys pre (s # ss) =
     (case node_at fsys (pre @ [s]) of
        Some (File _) \<Rightarrow> None
      | _ \<Rightarrow> mkdir_from (fsys(pre @ [s] \<mapsto> Dir)) (pre @ [s]) ss)"

definition mkdir :: "fs \<Rightarrow> string list \<Rightarrow> fs option" where
  "mkdir fsys dir = mkdir_from fsys [] dir"

text \<open>
  \<^verbatim>\<open>fs.promises.writeFile(p, data)\<close>: the parent must be a directory and the path
  must not name a directory.
\<close>

definition writeFile :: "fs \<Rightarrow> path \<Rightarrow> string \<Rightarrow> fs option" where
  "writeFile fsys p content =
     (if snd p \<or> fst p = [] then None
      else if node_at fsys (butlast (fst p)) \<noteq> Some Dir then None
      else if fsys (fst p) = Some Dir then None
      else Some (fsys(fst p \<mapsto> File content)))"

text \<open>
  What the pipeline can change and leave behind: the fsys, the requests sent to the
  network (in order), the console, and the entries of \<^verbatim>\<open>missingLog\<close>.
\<close>

record world =
  files :: fs
  requests :: "string list"
  console :: "event list"
  missingLog :: "string list"
  completedCourses :: nat

definition say :: "event \<Rightarrow> world \<Rightarrow> world" where
  "say e w = w\<lparr>console := console w @ [e]\<rparr>"

datatype fetch_result = Skipped | Downloaded

text \<open>
  \<^verbatim>\<open>downloadFile(url)\<close>. The \<open>k\<close>-th request of the run, for \<open>url\<close>, settles as
  \<open>net k url\<close>. \<open>Inl\<close> is what the function throws.
\<close>

definition downloadFile ::
  "string list \<Rightarrow> (nat \<Rightarrow> string \<Rightarrow> string outcome) \<Rightarrow> string \<Rightarrow> world
     \<Rightarrow> (js_error + fetch_result) \<times> world" where
  "downloadFile root net url_str w =
     (case localPathFromUrl root url_str of
        Inl err \<Rightarrow> (Inl err, w)
      | Inr localPath \<Rightarrow>
          (case mkdir (files w) (dirname localPath) of
             None \<Rightarrow> (Inl FsError, w)
           | Some files1 \<Rightarrow>
               if existsSync files1 localPath
               then (Inr Skipped, say (LogSkipExisting (fst localPath)) (w\<lparr>files := files1\<rparr>))
               else (let w1 = w\<lparr>files := files1, requests := requests w @ [url_str]\<rparr>
                     in (case net (length (requests w)) url_str of
                           Rejected message \<Rightarrow> (Inl (NetError message), w1)
                         | Resolved content \<Rightarrow>
                             (case writeFile files1 localPath content of
                                None \<Rightarrow> (Inl FsError, w1)
                              | Some files2 \<Rightarrow>
                                  (Inr Downloaded,
                                   say (LogDone (fst localPath)) (w1\<lparr>files := files2\<rparr>)))))))"

section \<open>FetchPipeline: \<^verbatim>\<open>processCourse\<close> and the main loop\<close>

record course =
  label :: string
  course_href :: string

text \<open>
  What the run meets outside: whether \<^verbatim>\<open>page.goto\<close> of a course fails, how the
  \<open>k\<close>-th \<^verbatim>\<open>page.evaluate\<close> on the page of a course settles (with the URL list and
  the serialised page), and the network.
\<close>

record env =
  page_goto :: "string \<Rightarrow> string option"
  page_evaluate :: "string \<Rightarrow> nat \<Rightarrow> (string list \<times> string) outcome"
  axios_get :: "nat \<Rightarrow> string \<Rightarrow> string outcome"

text \<open>\<^verbatim>\<open>config.missingLogger?.(entry)\<close>: the logger is there when all courses were selected.\<close>

definition missingLogger :: "bool \<Rightarrow> string \<Rightarrow> world \<Rightarrow> world" where
  "missingLogger reporting entry w =
     (if reporting then w\<lparr>missingLog := missingLog w @ [entry]\<rparr> else w)"

text \<open>\<^verbatim>\<open>err.message\<close>.\<close>

fun error_message :: "js_error \<Rightarrow> string" where
  "error_message TypeError = ''Invalid URL''"
| "error_message URIError = ''URI malformed''"
| "error_message FsError = ''file system error''"
| "error_message (NetError m) = m"
| "error_message (EvalError m) = m"

text \<open>
  The download loop of \<^verbatim>\<open>processCourse\<close>. \<^verbatim>\<open>decodeURI\<close> stands before the
  \<^verbatim>\<open>try\<close>: its error leaves the loop. The result lists what \<^verbatim>\<open>downloadFile\<close>
  returned or threw for each URL.
\<close>

fun downloadAll ::
  "string list \<Rightarrow> env \<Rightarrow> bool \<Rightarrow> string \<Rightarrow> string list \<Rightarrow> world
     \<Rightarrow> js_error option \<times> (js_error + fetch_result) list \<times> world" where
  "downloadAll root e reporting lbl [] w = (None, [], w)"
| "downloadAll root e reporting lbl (url_str # urls) w =
     (case decodeURI url_str of
        None \<Rightarrow> (Some URIError, [], w)
      | Some decoded \<Rightarrow>
          (case downloadFile root (axios_get e) decoded w of
             (Inl err, w1) \<Rightarrow>
               (case downloadAll root e reporting lbl urls
                       (missingLogger reporting
                          (''['' @ lbl @ ''] '' @ decoded @ '' :: '' @ error_message err)
                          (say (LogFail decoded (error_message err)) w1)) of
                  (thrown, results, w2) \<Rightarrow> (thrown, Inl err # results, w2))
           | (Inr r, w1) \<Rightarrow>
               (case downloadAll root e reporting lbl urls w1 of
                  (thrown, results, w2) \<Rightarrow> (thrown, Inr r # results, w2))))"

text \<open>Writing the rewritten page as \<^verbatim>\<open>index.html\<close>; nothing is caught here.\<close>

definition writeIndex :: "string list \<Rightarrow> course \<Rightarrow> string \<Rightarrow> world \<Rightarrow> js_error option \<times> world" where
  "writeIndex root c serializedHtml w =
     (if serializedHtml = [] then (None, say LogIndexNotCaptured w)
      else (case localPathFromUrl root (course_href c) of
              Inl err \<Rightarrow> (Some err, w)
            | Inr htmlDir \<Rightarrow>
                (case mkdir (files w) (fst htmlDir) of
                   None \<Rightarrow> (Some FsError, w)
                 | Some files1 \<Rightarrow>
                     (case writeFile files1 (fst htmlDir @ [''index.html''], False) serializedHtml of
                        None \<Rightarrow> (Some FsError, w\<lparr>files := files1\<rparr>)
                      | Some files2 \<Rightarrow>
                          (None, say (LogIndexDone (fst htmlDir @ [''index.html'']))
                                   (w\<lparr>files := files2\<rparr>))))))"

text \<open>\<^verbatim>\<open>processCourse(page, courseChoice, config)\<close>; \<open>Some err\<close> is what it throws.\<close>

definition processCourse ::
  "string list \<Rightarrow> env \<Rightarrow> bool \<Rightarrow> course \<Rightarrow> world \<Rightarrow> js_error option \<times> world" where
  "processCourse root e reporting c w =
     (let w0 = say (LogNavigating (label c)) w
      in (case page_goto e (course_href c) of
            Some message \<Rightarrow> (Some (NetError message), w0)
          | None \<Rightarrow>
              (case evaluateWithRetry (page_evaluate e (course_href c)) of
                 (Inl message, calls, logged) \<Rightarrow>
                   (Some (EvalError message), w0\<lparr>console := console w0 @ logged\<rparr>)
               | (Inr (urls, serializedHtml), calls, logged) \<Rightarrow>
                   (let w1 = w0\<lparr>console := console w0 @ logged\<rparr>;
                        usableList = usableUrls urls;
                        skipped = length urls - length usableList;
                        w2 = (if skipped \<noteq> 0 then say (LogSkippedLinks skipped) w1 else w1)
                    in (case writeIndex root c serializedHtml w2 of
                          (Some err, w3) \<Rightarrow> (Some err, w3)
                        | (None, w3) \<Rightarrow>
                            if usableList = []
                            then (None, missingLogger reporting
                                          (''['' @ label c @ ''] No downloadable URLs detected'')
                                          (say (LogNoUrls (label c)) w3))
                            else (case downloadAll root e reporting (label c) usableList
                                         (say (LogDownloading (length usableList) (label c)) w3) of
                                    (thrown, results, w4) \<Rightarrow> (thrown, w4)))))))"

text \<open>
  The loop \<^verbatim>\<open>for (const course of selectedCourses)\<close> of the main function: an
  error thrown by \<^verbatim>\<open>processCourse\<close> is not caught in the loop.
\<close>

fun courseLoop ::
  "string list \<Rightarrow> env \<Rightarrow> bool \<Rightarrow> course list \<Rightarrow> world \<Rightarrow> js_error option \<times> world" where
  "courseLoop root e reporting [] w = (None, w)"
| "courseLoop root e reporting (c # cs) w =
     (case processCourse root e reporting c w of
        (Some err, w1) \<Rightarrow> (Some err, w1)
      | (None, w1) \<Rightarrow>
          courseLoop root e reporting cs (w1\<lparr>completedCourses := completedCourses w1 + 1\<rparr>))"

text \<open>
  The main function from the course loop on, with the handler
  \<^verbatim>\<open>.catch(err => { ...; process.exit(1); })\<close>: the exit code and what is left
  behind. \<open>year\<close> is the directory of \<^verbatim>\<open>missing.txt\<close>.
\<close>

definition run ::
  "string list \<Rightarrow> env \<Rightarrow> bool \<Rightarrow> string \<Rightarrow> course list \<Rightarrow> world \<Rightarrow> nat \<times> world" where
  "run root e reporting year cs w =
     (case courseLoop root e reporting cs w of
        (Some err, w1) \<Rightarrow> (1, say (LogFatal (error_message err)) w1)
      | (None, w1) \<Rightarrow>
          if reporting \<and> missingLog w1 \<noteq> [] then
            (case mkdir (files w1) (fst (path_join root [year])) of
               None \<Rightarrow> (1, say (LogFatal (error_message FsError)) w1)
             | Some files1 \<Rightarrow>
                 (case writeFile files1 (path_join root [year, ''missing.txt''])
                         (concat (map (\<lambda>l. l @ [CHR 0x0A]) (missingLog w1))) of
                    None \<Rightarrow> (1, say (LogFatal (error_message FsError)) (w1\<lparr>files := files1\<rparr>))
                  | Some files2 \<Rightarrow>
                      (0, say LogAllDone
                            (say (LogReportSaved (fst (path_join root [year, ''missing.txt''])))
                               (w1\<lparr>files := files2\<rparr>)))))
          else (0, say LogAllDone w1))"

definition empty_world :: world where
  "empty_world = \<lparr>files = Map.empty, requests = [], console = [], missingLog = [], completedCourses = 0\<rparr>"

section \<open>Invariants of the file system\<close>

text \<open>A well-formed file system: whatever exists lies in a directory.\<close>

definition fs_ok :: "fs \<Rightarrow> bool" where
  "fs_ok fsys = (\<forall>p. fsys p \<noteq> None \<longrightarrow> p \<noteq> [] \<and> node_at fsys (butlast p) = Some Dir)"

text \<open>
  The resource of a URL of the list is present: the local path of the decoded URL exists.
\<close>

definition present :: "string list \<Rightarrow> fs \<Rightarrow> string \<Rightarrow> bool" where
  "present root fsys url_str =
     (case decodeURI url_str of
        None \<Rightarrow> False
      | Some decoded \<Rightarrow>
          (case localPathFromUrl root decoded of
             Inl err \<Rightarrow> False
           | Inr p \<Rightarrow> existsSync fsys p))"

text \<open>\<^verbatim>\<open>downloadFile\<close> returned: the file was there or has been written.\<close>

definition fetched :: "js_error + fetch_result \<Rightarrow> bool" where
  "fetched r = (case r of Inl err \<Rightarrow> False | Inr x \<Rightarrow> True)"

section \<open>A page of the current year\<close>

text \<open>
  The page \<^verbatim>\<open>https://www.math.cuhk.edu.hk/course_builder/2526/MATH1010/\<close> and the
  configuration the main function builds for the current year: no year rewrite, host
  fix on.
\<close>

definition page2526 :: url where
  "page2526 = \<lparr>scheme = ''https'', hostname = ''www.math.cuhk.edu.hk'', port = [],
     segments = [''course_builder'', ''2526'', ''MATH1010'', []], query = None, fragment = None\<rparr>"

definition config2526 :: config where
  "config2526 = \<lparr>applyYearRewrite = False, yearPrefix = [], courseYearDigits = ''2526'',
     staffPrefix = STAFF_PREFIX, forceHostReplacement = True,
     hostNeedingFix = PMA_IP, hostReplacement = PMA_NAME\<rparr>"

text \<open>
  A page of the year 2223 and a configuration that rewrites the year to 2425: without an
  underscore, and with one.
\<close>

definition page2223 :: url where
  "page2223 = \<lparr>scheme = ''https'', hostname = ''www.math.cuhk.edu.hk'', port = [],
     segments = [''course_builder'', ''2223'', ''MATH1010'', []], query = None, fragment = None\<rparr>"

definition config2425 :: config where
  "config2425 = \<lparr>applyYearRewrite = True, yearPrefix = [], courseYearDigits = ''2425'',
     staffPrefix = STAFF_PREFIX, forceHostReplacement = False,
     hostNeedingFix = PMA_IP, hostReplacement = PMA_NAME\<rparr>"

definition config_2425 :: config where
  "config_2425 = \<lparr>applyYearRewrite = True, yearPrefix = ''_'', courseYearDigits = ''2425'',
     staffPrefix = STAFF_PREFIX, forceHostReplacement = False,
     hostNeedingFix = PMA_IP, hostReplacement = PMA_NAME\<rparr>"

section \<open>Invariants of a parsed URL\<close>

text \<open>
  A segment as the path state leaves it: nothing that the path state encodes, no slash,
  and not a dot segment.
\<close>

definition seg_ok :: "string \<Rightarrow> bool" where
  "seg_ok s =
     (list_all (\<lambda>c. \<not> path_set c \<and> \<not> is_slash c) s \<and> \<not> is_double_dot s \<and> \<not> is_single_dot s)"

text \<open>
  A URL as the parser returns it: parsing its host or its port again gives the same, the
  path has a segment, and path, query and fragment are percent-encoded.
\<close>

definition url_ok :: "url \<Rightarrow> bool" where
  "url_ok u =
     ((scheme u = ''http'' \<or> scheme u = ''https'')
      \<and> parse_host (hostname u) = Some (hostname u)
      \<and> parse_port (scheme u) (port u) = Some (port u)
      \<and> segments u \<noteq> [] \<and> list_all seg_ok (segments u)
      \<and> (case query u of None \<Rightarrow> True | Some q \<Rightarrow> list_all (\<lambda>c. \<not> special_query_set c) q)
      \<and> (case fragment u of None \<Rightarrow> True | Some f \<Rightarrow> list_all (\<lambda>c. \<not> fragment_set c) f))"

text \<open>The query and the fragment of a serialised URL.\<close>

definition query_part :: "url \<Rightarrow> string" where
  "query_part u = (case query u of None \<Rightarrow> [] | Some q \<Rightarrow> CHR ''?'' # q)"

definition fragment_part :: "url \<Rightarrow> string" where
  "fragment_part u = (case fragment u of None \<Rightarrow> [] | Some f \<Rightarrow> CHR ''#'' # f)"

text \<open>A year segment without its optional underscore.\<close>

definition strip_underscore :: "string \<Rightarrow> string" where
  "strip_underscore y = (if take 1 y = ''_'' then drop 1 y else y)"

text \<open>The shape \<^verbatim>\<open>/^_?\d{4}$/\<close> of a year segment.\<close>

definition year_shape :: "string \<Rightarrow> bool" where
  "year_shape y =
     (let d = (if take 1 y = ''_'' then drop 1 y else y)
      in length d = 4 \<and> list_all is_digit d)"

text \<open>
  The year rewrite on the segments of a path: the first segment of the shape of a year
  that follows a segment \<^verbatim>\<open>course_builder\<close> (in any case) and is not the last one
  becomes \<open>r\<close>.
\<close>

fun year_segments :: "string \<Rightarrow> string list \<Rightarrow> string list" where
  "year_segments r (a # y # z # rest) =
     (if map ascii_lower a = ''course_builder'' \<and> year_shape y then a # r # z # rest
      else a # year_segments r (y # z # rest))"
| "year_segments r segs = segs"

text \<open>The host that \<^verbatim>\<open>u.hostname = v\<close> sets does not depend on \<open>u\<close>.\<close>

definition host_of :: "string \<Rightarrow> string option" where
  "host_of v =
     (let s = filter (\<lambda>c. \<not> tab_or_newline c) v;
          buffer = takeWhile (\<lambda>c. \<not> is_slash c \<and> \<not> path_end c \<and> c \<noteq> CHR '':'') s;
          rest = dropWhile (\<lambda>c. \<not> is_slash c \<and> \<not> path_end c \<and> c \<noteq> CHR '':'') s
      in if take 1 rest = '':'' then None else parse_host buffer)"

text \<open>The first part of \<^verbatim>\<open>normalizeUrl\<close>: the host fix.\<close>

definition host_fix :: "config \<Rightarrow> url \<Rightarrow> url" where
  "host_fix cfg target =
     (if forceHostReplacement cfg \<and> hostname target = hostNeedingFix cfg
      then clear_port (set_hostname target (hostReplacement cfg))
      else target)"

text \<open>
  The place of the year rewrite: segment \<open>i\<close> is the anchor, the next one has the shape of
  a year, and one more segment follows.
\<close>

definition anchor_year :: "string list \<Rightarrow> nat \<Rightarrow> bool" where
  "anchor_year segs i =
     (i + 2 < length segs \<and> map ascii_lower (segs ! i) = ''course_builder''
      \<and> year_shape (segs ! (i + 1)))"

section \<open>The script and the pipeline over any \<^verbatim>\<open>URL\<close> class\<close>

text \<open>
  Which links the passes drop, keep or rewrite does not depend on which strings the
  parser of the platform accepts. In this section the class \<^verbatim>\<open>URL\<close> is a
  parameter: its constructor \<^verbatim>\<open>new URL(input, base)\<close> (\<open>None\<close> is the
  \<^verbatim>\<open>TypeError\<close>), the getters, and the three assignments of the script. A URL object
  is a value, and an assignment returns the changed object. \<^verbatim>\<open>location\<close> is read
  through the same getters.
\<close>

record 'u url_class =
  new_URL :: "string \<Rightarrow> string option \<Rightarrow> 'u option"
  get_href :: "'u \<Rightarrow> string"
  get_origin :: "'u \<Rightarrow> string"
  get_hostname :: "'u \<Rightarrow> string"
  get_pathname :: "'u \<Rightarrow> string"
  get_search :: "'u \<Rightarrow> string"
  get_hash :: "'u \<Rightarrow> string"
  put_hostname :: "'u \<Rightarrow> string \<Rightarrow> 'u"
  put_port_empty :: "'u \<Rightarrow> 'u"
  put_pathname :: "'u \<Rightarrow> string \<Rightarrow> 'u"

text \<open>
  One such class is the model of the first sections, which accepts URLs of the schemes
  \<^verbatim>\<open>http\<close> and \<^verbatim>\<open>https\<close> only. It gives the concrete examples; the platform's
  class accepts more (\<^verbatim>\<open>mailto:\<close>, \<^verbatim>\<open>ftp:\<close>, credentials, IPv6 hosts).
\<close>

definition URL_model :: "url url_class" where
  "URL_model =
     \<lparr>new_URL = (\<lambda>input base.
          case base of
            None \<Rightarrow> parseURL input None
          | Some b \<Rightarrow> (case parseURL b None of None \<Rightarrow> None | Some bu \<Rightarrow> parseURL input (Some bu))),
      get_href = href, get_origin = origin, get_hostname = hostname, get_pathname = pathname,
      get_search = search, get_hash = hash,
      put_hostname = set_hostname, put_port_empty = clear_port, put_pathname = set_pathname\<rparr>"

subsection \<open>The script evaluated in the page\<close>

text \<open>\<^verbatim>\<open>normalizeUrl(href)\<close>; \<open>loc\<close> is \<^verbatim>\<open>location\<close>, \<open>None\<close> is \<^verbatim>\<open>null\<close>.\<close>

definition normalizeUrl_on :: "'u url_class \<Rightarrow> config \<Rightarrow> 'u \<Rightarrow> string \<Rightarrow> 'u option" where
  "normalizeUrl_on cls cfg loc h =
     (case new_URL cls h (Some (get_href cls loc)) of
        None \<Rightarrow> None
      | Some target \<Rightarrow>
          (let fixed_host =
                 (if forceHostReplacement cfg \<and> get_hostname cls target = hostNeedingFix cfg
                  then put_port_empty cls (put_hostname cls target (hostReplacement cfg))
                  else target);
               fixed =
                 (if applyYearRewrite cfg
                  then put_pathname cls fixed_host
                         (replace_year (yearPrefix cfg @ courseYearDigits cfg)
                            (get_pathname cls fixed_host))
                  else fixed_host)
           in Some fixed))"

text \<open>
  One turn of the loop over the \<^verbatim>\<open>li\<close> elements. \<open>li\<close> is the \<^verbatim>\<open>href\<close>
  property of the first anchor of the element, as the document gives it, \<open>None\<close> when the
  element has no anchor. The result is the URL pushed to \<^verbatim>\<open>urls\<close>, if any.
\<close>

definition li_url :: "'u url_class \<Rightarrow> config \<Rightarrow> 'u \<Rightarrow> string option \<Rightarrow> string option" where
  "li_url cls cfg loc li =
     (case li of
        None \<Rightarrow> None
      | Some a_href \<Rightarrow>
          if includes_str a_href ''javascript:'' then None
          else (case normalizeUrl_on cls cfg loc a_href of
                  None \<Rightarrow> None
                | Some fixed \<Rightarrow> Some (get_href cls fixed)))"

definition downloadUrls :: "'u url_class \<Rightarrow> config \<Rightarrow> 'u \<Rightarrow> string option list \<Rightarrow> string list" where
  "downloadUrls cls cfg loc lis = List.map_filter (li_url cls cfg loc) lis"

text \<open>
  \<^verbatim>\<open>baseDir\<close>, from \<^verbatim>\<open>location.pathname\<close>: the path up to its last slash;
  \<^verbatim>\<open>replace(/[^/]+$/, '/')\<close> puts a slash in the place of the last segment.
\<close>

definition baseDir :: "string \<Rightarrow> string" where
  "baseDir p =
     (if p \<noteq> [] \<and> last p = CHR ''/'' then p
      else if p = [] then []
      else rev (dropWhile (\<lambda>c. c \<noteq> CHR ''/'') (rev p)) @ ''/'')"

text \<open>
  One turn of the loop over \<^verbatim>\<open>a[href]\<close>: the value given to
  \<^verbatim>\<open>setAttribute('href', ...)\<close>, \<open>None\<close> when the loop returns before it.
  \<open>rawHref\<close> is the attribute as the loop reads it.
\<close>

definition rewriteHref :: "'u url_class \<Rightarrow> config \<Rightarrow> 'u \<Rightarrow> string \<Rightarrow> string option" where
  "rewriteHref cls cfg loc rawHref =
     (if rawHref = [] \<or> startsWith rawHref ''javascript:'' then None
      else (case normalizeUrl_on cls cfg loc rawHref of
              None \<Rightarrow> None
            | Some fixed \<Rightarrow>
                if startsWith (get_href cls fixed) (staffPrefix cfg) then None
                else if get_origin cls fixed = get_origin cls loc
                        \<and> startsWith (get_pathname cls fixed) ''/course_builder/''
                then Some (toRelative (splitSegments (baseDir (get_pathname cls loc)))
                             (get_pathname cls fixed)
                           @ get_search cls fixed @ get_hash cls fixed)
                else Some (get_href cls fixed)))"

text \<open>The attribute after the turn.\<close>

definition rewrittenHref :: "'u url_class \<Rightarrow> config \<Rightarrow> 'u \<Rightarrow> string \<Rightarrow> string" where
  "rewrittenHref cls cfg loc rawHref =
     (case rewriteHref cls cfg loc rawHref of None \<Rightarrow> rawHref | Some v \<Rightarrow> v)"

subsection \<open>The string map of the second variant of the script\<close>

text \<open>
  \<^verbatim>\<open>s.split(sep)\<close> for a string \<open>sep\<close>: at every occurrence of \<open>sep\<close> from the left,
  between all characters when \<open>sep\<close> is empty. \<open>cur\<close> is the piece being read.
\<close>

function split_at :: "string \<Rightarrow> string \<Rightarrow> string \<Rightarrow> string list" where
  "split_at sep cur [] = [cur]"
| "split_at sep cur (c # cs) =
     (if sep \<noteq> [] \<and> startsWith (c # cs) sep
      then cur # split_at sep [] (drop (length sep - 1) cs)
      else split_at sep (cur @ [c]) cs)"
  by pat_completeness auto
termination
  by (relation "measure (\<lambda>(sep, cur, s). length s)") auto

definition split_str :: "string \<Rightarrow> string \<Rightarrow> string list" where
  "split_str sep s = (if sep = [] then map (\<lambda>c. [c]) s else split_at sep [] s)"

text \<open>
  \<^verbatim>\<open>applyReplacements(text)\<close>: one turn of its loop for the entry \<^verbatim>\<open>[bad, good]\<close>,
  and the function; \<open>replacements\<close> is \<^verbatim>\<open>Object.entries(config.stringMap ?? {})\<close>. The
  counter \<^verbatim>\<open>replacedCount\<close> only feeds a log line.
\<close>

definition replaceEntry :: "string \<Rightarrow> string \<times> string \<Rightarrow> string" where
  "replaceEntry next entry =
     (case entry of
        (bad, good) \<Rightarrow>
          if includes_str next bad
          then (let updated = join good (split_str bad next)
                in if updated \<noteq> next then updated else next)
          else next)"

definition applyReplacements :: "(string \<times> string) list \<Rightarrow> string \<Rightarrow> string" where
  "applyReplacements replacements t = (if t = [] then [] else foldl replaceEntry t replacements)"

text \<open>
  The loop over \<^verbatim>\<open>[href]\<close> of the second variant (\<^verbatim>\<open>src/unnamed/part_000\<close>), which
  runs before the loop over \<^verbatim>\<open>a[href]\<close> when the string map has an entry: the
  attribute \<open>v\<close> after it. The script of \<^verbatim>\<open>src/index.ts\<close> has no string map, which is
  the case of no entry.
\<close>

definition stringMapHref :: "(string \<times> string) list \<Rightarrow> string \<Rightarrow> string" where
  "stringMapHref replacements v =
     (if replacements = [] then v
      else (let next = applyReplacements replacements v
            in if next \<noteq> v then next else v))"

text \<open>
  The \<^verbatim>\<open>href\<close> attribute of an anchor in the serialised page, from the attribute
  \<open>v\<close> of the page as it was loaded.
\<close>

definition serializedHref ::
  "'u url_class \<Rightarrow> config \<Rightarrow> 'u \<Rightarrow> (string \<times> string) list \<Rightarrow> string \<Rightarrow> string" where
  "serializedHref cls cfg loc replacements v =
     rewrittenHref cls cfg loc (stringMapHref replacements v)"

subsection \<open>The pipeline\<close>

text \<open>
  The predicate of \<^verbatim>\<open>downloadUrls.filter(...)\<close> in \<^verbatim>\<open>processCourse\<close>
  (\<^verbatim>\<open>src/index.ts\<close>).
\<close>

definition usable_on :: "'u url_class \<Rightarrow> string \<Rightarrow> bool" where
  "usable_on cls url_str =
     (if startsWith url_str STAFF_PREFIX then False
      else (case new_URL cls url_str None of
              None \<Rightarrow> False
            | Some u \<Rightarrow>
                if get_hostname cls u \<notin> set ALLOWED_HOSTS then False
                else if \<not> startsWith (get_pathname cls u) ''/course_builder/'' then False
                else True))"

definition usableUrls_on :: "'u url_class \<Rightarrow> string list \<Rightarrow> string list" where
  "usableUrls_on cls urls = filter (usable_on cls) urls"

text \<open>
  \<^verbatim>\<open>localPathFromUrl(url)\<close>. \<open>roots\<close> are the first segments that are stripped:
  \<^verbatim>\<open>course_builder\<close> in \<^verbatim>\<open>src/index.ts\<close>, \<^verbatim>\<open>course_builder\<close> and
  \<^verbatim>\<open>courses\<close> in \<^verbatim>\<open>src/unnamed/part_000\<close>. \<open>root\<close> is \<^verbatim>\<open>DOWNLOAD_ROOT\<close>.
\<close>

definition strippedRoots_index :: "string list" where
  "strippedRoots_index = [''course_builder'']"


definition localPathFromUrl_on ::
  "'u url_class \<Rightarrow> string list \<Rightarrow> string list \<Rightarrow> string \<Rightarrow> js_error + path" where
  "localPathFromUrl_on cls roots root url_str =
     (case new_URL cls url_str None of
        None \<Rightarrow> Inl TypeError
      | Some u \<Rightarrow>
          (let parts = filter (\<lambda>s. s \<noteq> []) (split_chr CHR ''/'' (get_pathname cls u));
               parts' = (case parts of
                           [] \<Rightarrow> []
                         | p # ps \<Rightarrow> if p \<in> set roots then ps else parts)
           in (case decode_all parts' of
                 None \<Rightarrow> Inl URIError
               | Some decoded \<Rightarrow> Inr (path_join root decoded))))"

section \<open>Facts about the string helpers\<close>

lemma split_by_not_Nil [simp]: "split_by sep s \<noteq> []"
  by (induction s) (auto split: list.splits)

lemma split_by_no_sep: "seg \<in> set (split_by sep s) \<Longrightarrow> \<forall>c \<in> set seg. \<not> sep c"
proof (induction s arbitrary: seg)
  case Nil
  then show ?case by simp
next
  case (Cons x xs)
  show ?case
  proof (cases "sep x")
    case True
    with Cons show ?thesis by auto
  next
    case False
    obtain t ts where ts: "split_by sep xs = t # ts"
      by (cases "split_by sep xs") auto
    with Cons.prems False have "seg = x # t \<or> seg \<in> set ts" by auto
    moreover have "\<forall>c \<in> set t. \<not> sep c" "\<forall>s \<in> set ts. \<forall>c \<in> set s. \<not> sep c"
      using Cons.IH ts by (simp, blast)+
    ultimately show ?thesis using False by auto
  qed
qed

lemma split_chr_no_sep: "seg \<in> set (split_chr c s) \<Longrightarrow> c \<notin> set seg"
  unfolding split_chr_def by (auto dest: split_by_no_sep)

lemma splitSegments_nonempty: "seg \<in> set (splitSegments p) \<Longrightarrow> seg \<noteq> []"
  by (simp add: splitSegments_def)

lemma splitSegments_no_slash: "seg \<in> set (splitSegments p) \<Longrightarrow> CHR ''/'' \<notin> set seg"
  by (auto simp: splitSegments_def dest: split_chr_no_sep)

lemma join_Cons_hd: "x \<noteq> [] \<Longrightarrow> join sep (x # xs) \<noteq> [] \<and> hd (join sep (x # xs)) = hd x"
  by (cases xs) auto

lemma join_eq_Nil_iff:
  "(\<forall>x \<in> set xs. x \<noteq> []) \<Longrightarrow> join sep xs = [] \<longleftrightarrow> xs = []"
  by (cases xs) (auto dest: join_Cons_hd [THEN conjunct1])

section \<open>Facts about characters\<close>

lemma ascii_lower_idem [simp]: "ascii_lower (ascii_lower c) = ascii_lower c"
  by (auto simp: ascii_lower_def)

lemma is_digit_lower [simp]: "is_digit (ascii_lower c) = is_digit c"
  by (auto simp: ascii_lower_def is_digit_def)

lemma is_hex_lower [simp]: "is_hex (ascii_lower c) = is_hex c"
  by (auto simp: ascii_lower_def is_hex_def)

lemma is_alpha_lower [simp]: "is_alpha (ascii_lower c) = is_alpha c"
  by (auto simp: ascii_lower_def is_alpha_def)

lemma lower_eq_dot [simp]: "ascii_lower c = CHR ''.'' \<longleftrightarrow> c = CHR ''.''"
  by (auto simp: ascii_lower_def)

lemma lower_punct [simp]: "ascii_lower c \<in> set ''-._'' \<longleftrightarrow> c \<in> set ''-._''"
  by (auto simp: ascii_lower_def)

lemma hex_digit_in: "hex_digit n \<in> set ''0123456789ABCDEF''"
proof -
  have "n mod 16 < 16" by simp
  then have "''0123456789ABCDEF'' ! (n mod 16) \<in> set ''0123456789ABCDEF''"
    by (intro nth_mem) simp
  then show ?thesis by (simp only: hex_digit_def)
qed

lemma pct_chars: "d \<in> set (pct c) \<Longrightarrow> d \<in> set ''%0123456789ABCDEF''"
  using hex_digit_in [of "code c div 16"] hex_digit_in [of "code c mod 16"]
  by (auto simp: pct_def)

lemma safe_chars:
  "d \<in> set ''%0123456789ABCDEF'' \<Longrightarrow>
   \<not> path_set d \<and> \<not> special_query_set d \<and> \<not> fragment_set d \<and> \<not> is_slash d"
  by (auto simp: path_set_def special_query_set_def query_set_def fragment_set_def
      c0_control_set_def is_slash_def code_def)

lemma pct_safe:
  "d \<in> set (pct c) \<Longrightarrow> \<not> path_set d \<and> \<not> special_query_set d \<and> \<not> fragment_set d \<and> \<not> is_slash d"
  by (rule safe_chars) (rule pct_chars)

section \<open>Facts about percent-encoding\<close>

lemma percent_encode_Nil [simp]: "percent_encode enc [] = []"
  by (simp add: percent_encode_def)

lemma percent_encode_Cons:
  "percent_encode enc (c # s) = (if enc c then pct c else [c]) @ percent_encode enc s"
  by (simp add: percent_encode_def)

lemma percent_encode_id: "list_all (\<lambda>c. \<not> enc c) s \<Longrightarrow> percent_encode enc s = s"
  by (induction s) (auto simp: percent_encode_Cons)

lemma percent_encode_path: "list_all (\<lambda>c. \<not> path_set c) (percent_encode path_set s)"
  by (induction s) (auto simp: percent_encode_Cons list_all_iff dest: pct_safe)

lemma percent_encode_query:
  "list_all (\<lambda>c. \<not> special_query_set c) (percent_encode special_query_set s)"
  by (induction s) (auto simp: percent_encode_Cons list_all_iff dest: pct_safe)

lemma percent_encode_fragment: "list_all (\<lambda>c. \<not> fragment_set c) (percent_encode fragment_set s)"
  by (induction s) (auto simp: percent_encode_Cons list_all_iff dest: pct_safe)

lemma percent_encode_no_slash:
  "list_all (\<lambda>c. \<not> is_slash c) s \<Longrightarrow> list_all (\<lambda>c. \<not> is_slash c) (percent_encode enc s)"
  by (induction s) (auto simp: percent_encode_Cons list_all_iff dest: pct_safe)

section \<open>Facts about the path state\<close>

lemma seg_ok_Nil [simp]: "seg_ok []"
  by (simp add: seg_ok_def is_double_dot_def is_single_dot_def)

lemma seg_ok_buffer:
  assumes "list_all (\<lambda>c. \<not> is_slash c) p"
    and "\<not> is_double_dot (percent_encode path_set p)" "\<not> is_single_dot (percent_encode path_set p)"
  shows "seg_ok (percent_encode path_set p)"
  using assms percent_encode_path [of p] percent_encode_no_slash [of p path_set]
  by (simp add: seg_ok_def list_all_iff)

lemma list_all_butlast: "list_all P xs \<Longrightarrow> list_all P (butlast xs)"
  by (auto simp: list_all_iff dest: in_set_butlastD)

lemma path_state_ok:
  "list_all seg_ok acc \<Longrightarrow> list_all (list_all (\<lambda>c. \<not> is_slash c)) pieces \<Longrightarrow>
   list_all seg_ok (path_state pieces acc)"
proof (induction pieces acc rule: path_state.induct)
  case (1 acc)
  then show ?case by simp
next
  case (2 p acc)
  then show ?case
    by (auto simp: Let_def list_all_butlast seg_ok_buffer)
next
  case (3 p q ps acc)
  let ?b = "percent_encode path_set p"
  let ?acc = "if is_double_dot ?b then butlast acc else if is_single_dot ?b then acc else acc @ [?b]"
  from "3.prems" have "list_all seg_ok ?acc"
    by (auto simp: list_all_butlast seg_ok_buffer)
  moreover from "3.prems" have "list_all (list_all (\<lambda>c. \<not> is_slash c)) (q # ps)" by simp
  ultimately have "list_all seg_ok (path_state (q # ps) ?acc)"
    using "3.IH" [of ?b] by simp
  then show ?case by (simp add: Let_def)
qed

lemma path_state_not_Nil: "pieces \<noteq> [] \<Longrightarrow> path_state pieces acc \<noteq> []"
  by (induction pieces acc rule: path_state.induct) (auto simp: Let_def)

lemma split_by_pieces: "list_all (list_all (\<lambda>c. \<not> sep c)) (split_by sep s)"
  using split_by_no_sep [of _ sep s] by (auto simp: list_all_iff)

lemma parse_path_ok:
  "list_all seg_ok acc \<Longrightarrow> list_all seg_ok (parse_path raw acc) \<and> parse_path raw acc \<noteq> []"
  unfolding parse_path_def
  by (auto intro!: path_state_ok path_state_not_Nil split_by_pieces)

section \<open>Facts about the host and port parsers\<close>

lemma split_by_map:
  assumes "\<And>c. sep (f c) = sep c"
  shows "split_by sep (map f s) = map (map f) (split_by sep s)"
proof (induction s)
  case Nil
  then show ?case by simp
next
  case (Cons x xs)
  then show ?case
    using assms by (cases "split_by sep xs") auto
qed

lemma split_dot_lower:
  "split_chr CHR ''.'' (map ascii_lower h) = map (map ascii_lower) (split_chr CHR ''.'' h)"
  unfolding split_chr_def by (rule split_by_map) simp

lemma list_all_digit_lower [simp]: "list_all is_digit (map ascii_lower l) = list_all is_digit l"
  by (induction l) auto

lemma list_all_hex_lower [simp]: "list_all is_hex (map ascii_lower l) = list_all is_hex l"
  by (induction l) auto

lemma split_chr_not_Nil [simp]: "split_chr c s \<noteq> []"
  by (simp add: split_chr_def)

lemma map_lower_idem [simp]: "map ascii_lower (map ascii_lower l) = map ascii_lower l"
  by (induction l) auto

lemma number_label_lower: "number_label (map ascii_lower l) = number_label l"
  unfolding number_label_def
  by (simp only: map_lower_idem drop_map list_all_digit_lower list_all_hex_lower map_is_Nil_conv)

lemma ends_in_number_lower: "ends_in_number (map ascii_lower h) = ends_in_number h"
proof -
  let ?P = "split_chr CHR ''.'' h"
  let ?Q = "if last ?P = [] then butlast ?P else ?P"
  have l: "last (map (map ascii_lower) ?P) = map ascii_lower (last ?P)"
    by (simp add: last_map)
  have q: "(if last (map (map ascii_lower) ?P) = [] then butlast (map (map ascii_lower) ?P)
            else map (map ascii_lower) ?P) = map (map ascii_lower) ?Q"
    by (simp add: l map_butlast)
  have n: "number_label (last (map (map ascii_lower) Q)) = number_label (last Q)" if "Q \<noteq> []" for Q
    using that by (simp add: last_map number_label_lower)
  show ?thesis
    unfolding ends_in_number_def split_dot_lower Let_def q
    using n [of ?Q] by auto
qed

lemma is_alnum_lower [simp]: "is_alnum (ascii_lower c) = is_alnum c"
  by (simp add: is_alnum_def)

lemma host_char_lower [simp]: "host_char (ascii_lower c) = host_char c"
  unfolding host_char_def by (simp only: is_alnum_lower lower_punct)

lemma host_chars_lower: "list_all host_char (map ascii_lower h) = list_all host_char h"
  by (induction h) simp_all

lemma parse_host_idem: "parse_host x = Some h \<Longrightarrow> parse_host h = Some h"
proof (cases "ends_in_number x")
  case True
  assume "parse_host x = Some h"
  with True have "h = x" by (auto simp: parse_host_def Let_def split: if_splits)
  with \<open>parse_host x = Some h\<close> show ?thesis by simp
next
  case False
  assume a: "parse_host x = Some h"
  with False have h: "h = map ascii_lower x" and x: "x \<noteq> []" "list_all host_char x"
    by (auto simp: parse_host_def Let_def split: if_splits)
  from False have "\<not> ends_in_number h" by (simp add: h ends_in_number_lower)
  moreover from x have "h \<noteq> []" "list_all host_char h"
    by (simp_all add: h host_chars_lower)
  moreover have "map ascii_lower h = h" by (simp add: h)
  ultimately show ?thesis by (simp add: parse_host_def)
qed

lemma parse_host_chars: "parse_host x = Some h \<Longrightarrow> h \<noteq> [] \<and> list_all host_char h"
  by (auto simp: parse_host_def Let_def host_chars_lower split: if_splits)

lemma dec_value_zero: "dec_value (CHR ''0'' # s) = dec_value s"
  by (simp add: dec_value_def)

lemma dec_value_dropWhile: "dec_value (dropWhile (\<lambda>c. c = CHR ''0'') s) = dec_value s"
  by (induction s) (auto simp: dec_value_zero)

lemma dec_value_zero_only: "dec_value ''0'' = 0"
  by (simp add: dec_value_def)

lemma dropWhile_idem_hd: "dropWhile P s = d # ds \<Longrightarrow> dropWhile P (d # ds) = d # ds"
  by (metis dropWhile_idem)

lemma strip_zeros_cases:
  obtains "dropWhile (\<lambda>c. c = CHR ''0'') digits = []"
  | d ds where "dropWhile (\<lambda>c. c = CHR ''0'') digits = d # ds" "d \<noteq> CHR ''0''"
proof (cases "dropWhile (\<lambda>c. c = CHR ''0'') digits")
  case Nil
  then show ?thesis by (rule that(1))
next
  case (Cons d ds)
  then have "d \<noteq> CHR ''0''" using hd_dropWhile [of "\<lambda>c. c = CHR ''0''" digits] by auto
  with Cons show ?thesis by (rule that(2))
qed

lemma parse_port_zero: "parse_port sch ''0'' = Some ''0''"
  by (auto simp: parse_port_def is_digit_def dec_value_def default_port_def Let_def)

lemma parse_port_idem: "parse_port sch digits = Some p \<Longrightarrow> parse_port sch p = Some p"
proof (cases "p = []")
  case True
  then show ?thesis by (simp add: parse_port_def)
next
  case False
  assume a: "parse_port sch digits = Some p"
  define n where "n = (case dropWhile (\<lambda>c. c = CHR ''0'') digits of [] \<Rightarrow> ''0'' | d # ds \<Rightarrow> d # ds)"
  from a False have d: "list_all is_digit digits" "digits \<noteq> []" "\<not> dec_value digits > 65535"
    and p: "p = n" "p \<noteq> default_port sch"
    by (auto simp: parse_port_def Let_def n_def split: if_splits)
  show ?thesis
  proof (cases rule: strip_zeros_cases [of digits])
    case 1
    then have "p = ''0''" by (simp only: p n_def list.case)
    then show ?thesis by (simp only: parse_port_zero)
  next
    case (2 e es)
    then have pe: "p = e # es" by (simp only: p n_def list.case)
    have "set (dropWhile (\<lambda>c. c = CHR ''0'') digits) \<subseteq> set digits"
      by (rule set_dropWhileD [THEN subsetI])
    with d(1) 2(1) have dig: "list_all is_digit (e # es)" by (auto simp: list_all_iff)
    from dec_value_dropWhile [of digits] 2(1) have val: "dec_value (e # es) = dec_value digits"
      by simp
    from 2(2) have norm: "dropWhile (\<lambda>c. c = CHR ''0'') (e # es) = e # es" by simp
    from dig val d(3) norm p(2) show ?thesis
      unfolding pe parse_port_def Let_def by simp
  qed
qed

lemma parse_port_digits: "parse_port sch digits = Some p \<Longrightarrow> list_all is_digit p"
  using parse_port_idem [of sch digits p] by (auto simp: parse_port_def split: if_splits)

section \<open>What the parser returns\<close>

lemma parse_query_ok:
  "(case parse_query t of None \<Rightarrow> True | Some q \<Rightarrow> list_all (\<lambda>c. \<not> special_query_set c) q)"
  by (auto simp: parse_query_def percent_encode_query split: list.splits)

lemma parse_fragment_ok:
  "(case parse_fragment t of None \<Rightarrow> True | Some f \<Rightarrow> list_all (\<lambda>c. \<not> fragment_set c) f)"
  by (auto simp: parse_fragment_def percent_encode_fragment split: list.splits)

lemma parse_authority_ok:
  assumes "sch = ''http'' \<or> sch = ''https''" "parse_authority sch s = Some u"
  shows "url_ok u"
proof -
  let ?auth = "takeWhile (\<lambda>c. \<not> is_slash c \<and> \<not> path_end c) s"
  let ?rest = "dropWhile (\<lambda>c. \<not> is_slash c \<and> \<not> path_end c) s"
  let ?raw = "takeWhile (\<lambda>c. \<not> path_end c) ?rest"
  let ?tail = "dropWhile (\<lambda>c. \<not> path_end c) ?rest"
  from assms(2) obtain h p where
    h: "parse_host (takeWhile (\<lambda>c. c \<noteq> CHR '':'') ?auth) = Some h"
    and p: "parse_port sch (drop 1 (dropWhile (\<lambda>c. c \<noteq> CHR '':'') ?auth)) = Some p"
    and u: "u = \<lparr>scheme = sch, hostname = h, port = p, segments = parse_path ?raw [],
               query = parse_query ?tail, fragment = parse_fragment ?tail\<rparr>"
    by (auto simp: parse_authority_def Let_def split: if_splits option.splits)
  have "list_all seg_ok (parse_path ?raw []) \<and> parse_path ?raw [] \<noteq> []"
    by (rule parse_path_ok) simp
  with assms(1) parse_host_idem [OF h] parse_port_idem [OF p]
    parse_query_ok [of ?tail] parse_fragment_ok [of ?tail]
  show ?thesis unfolding u url_ok_def by simp
qed

lemma parse_relative_ok:
  assumes "url_ok base" "parse_relative base s = Some u"
  shows "url_ok u"
proof -
  let ?raw = "takeWhile (\<lambda>c. \<not> path_end c) s"
  let ?tail = "dropWhile (\<lambda>c. \<not> path_end c) s"
  note q = parse_query_ok [of ?tail] and f = parse_fragment_ok [of ?tail]
  have p0: "list_all seg_ok (parse_path ?raw []) \<and> parse_path ?raw [] \<noteq> []"
    by (rule parse_path_ok) simp
  from assms(1) have b: "list_all seg_ok (butlast (segments base))"
    by (simp add: url_ok_def list_all_butlast)
  have p1: "list_all seg_ok (path_state (split_by is_slash ?raw) (butlast (segments base)))
      \<and> path_state (split_by is_slash ?raw) (butlast (segments base)) \<noteq> []"
    using b by (auto intro!: path_state_ok path_state_not_Nil split_by_pieces)
  from assms(1) have sch: "scheme base = ''http'' \<or> scheme base = ''https''"
    by (simp add: url_ok_def)
  show ?thesis
  proof (cases s)
    case Nil
    with assms show ?thesis by (auto simp: parse_relative_def url_ok_def)
  next
    case (Cons c cs)
    show ?thesis
    proof (cases "is_slash c")
      case True
      show ?thesis
      proof (cases cs)
        case Nil
        with Cons True assms p0 show ?thesis
          by (auto simp: parse_relative_def url_ok_def Let_def)
      next
        case (Cons d ds)
        show ?thesis
        proof (cases "is_slash d")
          case True
          with \<open>s = c # cs\<close> \<open>is_slash c\<close> Cons assms(2)
          have "parse_authority (scheme base) (dropWhile is_slash ds) = Some u"
            by (simp add: parse_relative_def Let_def)
          with sch show ?thesis by (rule parse_authority_ok)
        next
          case False
          with \<open>s = c # cs\<close> \<open>is_slash c\<close> Cons assms p0 q f show ?thesis
            by (auto simp: parse_relative_def url_ok_def Let_def)
        qed
      qed
    next
      case False
      with Cons assms p1 q f show ?thesis
        by (auto simp: parse_relative_def url_ok_def Let_def split: if_splits)
    qed
  qed
qed

lemma parseURL_ok:
  assumes "case base of None \<Rightarrow> True | Some b \<Rightarrow> url_ok b" "parseURL x base = Some u"
  shows "url_ok u"
proof (cases "split_scheme (clean_input x)")
  case None
  with assms show ?thesis
    by (auto simp: parseURL_def Let_def split: option.splits intro: parse_relative_ok)
next
  case (Some a)
  obtain sch rest where a: "a = (sch, rest)" by (cases a)
  with Some assms(2) have sch: "sch = ''http'' \<or> sch = ''https''"
    by (auto simp: parseURL_def Let_def split: if_splits)
  show ?thesis
  proof (cases base)
    case None
    with Some a sch assms(2) have "parse_authority sch (dropWhile is_slash rest) = Some u"
      by (auto simp: parseURL_def Let_def split: if_splits)
    with sch show ?thesis by (rule parse_authority_ok)
  next
    case (Some b)
    with assms(1) have b: "url_ok b" by simp
    show ?thesis
    proof (cases "scheme b = sch")
      case True
      with \<open>split_scheme (clean_input x) = Some a\<close> a sch Some assms(2)
      have "parse_relative b rest = Some u"
        by (auto simp: parseURL_def Let_def split: if_splits)
      with b show ?thesis by (rule parse_relative_ok)
    next
      case False
      with \<open>split_scheme (clean_input x) = Some a\<close> a sch Some assms(2)
      have "parse_authority sch (dropWhile is_slash rest) = Some u"
        by (auto simp: parseURL_def Let_def split: if_splits)
      with sch show ?thesis by (rule parse_authority_ok)
    qed
  qed
qed

section \<open>What the setters keep\<close>

lemma set_hostname_cases:
  "set_hostname u v = u \<or> (\<exists>x h. parse_host x = Some h \<and> set_hostname u v = u\<lparr>hostname := h\<rparr>)"
  by (auto simp: set_hostname_def Let_def split: option.splits)

lemma set_hostname_ok:
  assumes "url_ok u"
  shows "url_ok (set_hostname u v)"
proof -
  from set_hostname_cases [of u v] show ?thesis
  proof
    assume "set_hostname u v = u"
    with assms show ?thesis by simp
  next
    assume "\<exists>x h. parse_host x = Some h \<and> set_hostname u v = u\<lparr>hostname := h\<rparr>"
    then obtain x h where x: "parse_host x = Some h" and s: "set_hostname u v = u\<lparr>hostname := h\<rparr>"
      by blast
    from parse_host_idem [OF x] assms show ?thesis
      unfolding s url_ok_def by simp
  qed
qed

lemma clear_port_ok: "url_ok u \<Longrightarrow> url_ok (clear_port u)"
  by (auto simp: clear_port_def url_ok_def parse_port_def)

lemma set_pathname_ok: "url_ok u \<Longrightarrow> url_ok (set_pathname u v)"
  using parse_path_ok [of "[]" "filter (\<lambda>c. \<not> tab_or_newline c) v"]
  by (auto simp: set_pathname_def url_ok_def)

lemma normalizeUrl_ok:
  assumes "url_ok loc" "normalizeUrl cfg loc h = Some u"
  shows "url_ok u"
proof -
  from assms(2) obtain target where t: "parseURL h (Some loc) = Some target"
    by (auto simp: normalizeUrl_def split: option.splits)
  with assms(1) have "url_ok target" by (intro parseURL_ok [of "Some loc" h]) simp_all
  with assms(2) t show ?thesis
    by (auto simp: normalizeUrl_def Let_def set_hostname_ok clear_port_ok set_pathname_ok
        split: if_splits)
qed

section \<open>Parsing a serialised URL again\<close>

lemma path_string_Nil [simp]: "path_string [] = []"
  by (simp add: path_string_def)

lemma path_string_Cons [simp]: "path_string (s # ss) = CHR ''/'' # s @ path_string ss"
  by (simp add: path_string_def)

lemma split_by_join:
  "list_all (\<lambda>c. \<not> sep c) s \<Longrightarrow> list_all (list_all (\<lambda>c. \<not> sep c)) ss \<Longrightarrow> sep d \<Longrightarrow>
   split_by sep (s @ concat (map ((#) d) ss)) = s # ss"
proof (induction ss arbitrary: s)
  case Nil
  then show ?case by (induction s) (auto split: list.splits)
next
  case (Cons t ts)
  from Cons.prems have t: "split_by sep (t @ concat (map ((#) d) ts)) = t # ts"
    by (intro Cons.IH) simp_all
  from Cons.prems(1) show ?case
  proof (induction s)
    case Nil
    from Cons.prems(3) t show ?case by simp
  next
    case (Cons x xs)
    then show ?case by simp
  qed
qed

lemma split_slash_path_string:
  assumes "list_all (list_all (\<lambda>c. \<not> is_slash c)) (s # ss)"
  shows "split_by is_slash (s @ path_string ss) = s # ss"
proof -
  have "is_slash CHR ''/''" by (simp add: is_slash_def)
  with assms show ?thesis
    unfolding path_string_def using split_by_join [of is_slash s ss "CHR ''/''"] by simp
qed

lemma seg_ok_no_slash: "seg_ok s \<Longrightarrow> list_all (\<lambda>c. \<not> is_slash c) s"
  by (simp add: seg_ok_def list_all_iff)

lemma seg_ok_encode: "seg_ok s \<Longrightarrow> percent_encode path_set s = s"
  by (intro percent_encode_id) (simp add: seg_ok_def list_all_iff)

lemma path_state_id:
  "list_all seg_ok segs \<Longrightarrow> segs \<noteq> [] \<Longrightarrow> path_state segs acc = acc @ segs"
proof (induction segs acc rule: path_state.induct)
  case (1 acc)
  then show ?case by simp
next
  case (2 p acc)
  then show ?case by (simp add: seg_ok_encode Let_def) (simp add: seg_ok_def)
next
  case (3 p q ps acc)
  from "3.prems" have p: "percent_encode path_set p = p" "\<not> is_double_dot p" "\<not> is_single_dot p"
    by (simp_all add: seg_ok_encode) (simp_all add: seg_ok_def)
  with "3.IH" [of p] "3.prems" have "path_state (q # ps) (acc @ [p]) = (acc @ [p]) @ q # ps"
    by simp
  with p show ?case by (simp add: Let_def)
qed

lemma parse_path_path_string:
  assumes "list_all seg_ok segs" "segs \<noteq> []"
  shows "parse_path (path_string segs) [] = segs"
proof -
  obtain s ss where segs: "segs = s # ss" using assms(2) by (cases segs) auto
  have sl: "is_slash CHR ''/''" by (simp add: is_slash_def)
  from assms(1) have "list_all (list_all (\<lambda>c. \<not> is_slash c)) (s # ss)"
    unfolding segs by (auto simp: list_all_iff seg_ok_def)
  then have "split_by is_slash (s @ path_string ss) = s # ss"
    by (rule split_slash_path_string)
  with assms sl show ?thesis
    unfolding parse_path_def segs by (simp add: path_state_id)
qed

lemma host_char_plain:
  "host_char c \<Longrightarrow>
   \<not> c0_or_space c \<and> \<not> is_slash c \<and> \<not> path_end c \<and> c \<noteq> CHR '':'' \<and> c \<noteq> CHR ''@''"
  by (auto simp: host_char_def is_alnum_def is_alpha_def is_digit_def c0_or_space_def is_slash_def
      path_end_def code_def)

lemma digit_host_char: "is_digit c \<Longrightarrow> host_char c"
  by (simp add: host_char_def is_alnum_def)

lemma code_space: "code c = 32 \<Longrightarrow> c = CHR '' ''"
proof -
  assume "code c = 32"
  then have "of_char c = (of_char CHR '' '' :: nat)" by (simp add: code_def)
  then show ?thesis by (simp only: of_char_eq_iff)
qed

lemma c0_or_space_path_set: "c0_or_space c \<Longrightarrow> path_set c \<and> special_query_set c \<and> fragment_set c"
proof -
  assume "c0_or_space c"
  then have "code c < 32 \<or> code c = 32" by (auto simp: c0_or_space_def)
  then have "code c < 32 \<or> c = CHR '' ''" using code_space by blast
  then show ?thesis
    by (auto simp: path_set_def special_query_set_def query_set_def fragment_set_def c0_control_set_def)
qed

lemma path_end_path_set: "path_end c \<Longrightarrow> path_set c"
  by (auto simp: path_end_def path_set_def query_set_def)

lemma hash_query_set: "special_query_set CHR ''#''"
  by (simp add: special_query_set_def query_set_def)

lemma tab_or_newline_c0: "tab_or_newline c \<Longrightarrow> c0_or_space c"
  by (auto simp: tab_or_newline_def c0_or_space_def code_def)

lemma dropWhile_none: "list_all (\<lambda>c. \<not> P c) s \<Longrightarrow> dropWhile P s = s"
  by (cases s) auto

lemma clean_input_id:
  assumes "list_all (\<lambda>c. \<not> c0_or_space c) s"
  shows "clean_input s = s"
proof -
  from assms have "list_all (\<lambda>c. \<not> c0_or_space c) (rev s)" by (simp add: list_all_iff)
  then have "dropWhile c0_or_space (rev s) = rev s" by (rule dropWhile_none)
  moreover from assms have "dropWhile c0_or_space s = s" by (rule dropWhile_none)
  moreover from assms have "filter (\<lambda>c. \<not> tab_or_newline c) s = s"
    by (auto simp: list_all_iff dest: tab_or_newline_c0 intro!: filter_True)
  ultimately show ?thesis by (simp add: clean_input_def)
qed

lemma takeWhile_all_append:
  "list_all P a \<Longrightarrow> (r = [] \<or> \<not> P (hd r)) \<Longrightarrow> takeWhile P (a @ r) = a \<and> dropWhile P (a @ r) = r"
proof -
  assume a: "list_all P a" and r: "r = [] \<or> \<not> P (hd r)"
  from r have "takeWhile P r = [] \<and> dropWhile P r = r" by (cases r) auto
  with a show ?thesis by (induction a) auto
qed

lemma split_scheme_http:
  assumes "sch = ''http'' \<or> sch = ''https''"
  shows "split_scheme (sch @ CHR '':'' # rest) = Some (sch, rest)"
  using assms
  by (auto simp: split_scheme_def is_alpha_def is_alnum_def is_digit_def ascii_lower_def Let_def)


lemma path_string_chars:
  assumes "list_all seg_ok segs"
  shows "list_all (\<lambda>c. \<not> path_set c) (path_string segs)"
  using assms
proof (induction segs)
  case Nil
  then show ?case by simp
next
  case (Cons s ss)
  have "\<not> path_set CHR ''/''"
    by (simp add: path_set_def query_set_def c0_control_set_def code_def)
  with Cons show ?case by (auto simp: seg_ok_def list_all_iff)
qed

lemma path_string_hd: "segs \<noteq> [] \<Longrightarrow> path_string segs \<noteq> [] \<and> hd (path_string segs) = CHR ''/''"
  by (cases segs) auto

lemma href_parts:
  "href u = scheme u @ CHR '':'' # ''//'' @ (hostname u @ (if port u = [] then [] else CHR '':'' # port u))
              @ (path_string (segments u) @ query_part u @ fragment_part u)"
  by (simp add: href_def origin_def pathname_def query_part_def fragment_part_def)

lemma tail_hd: "query_part u @ fragment_part u = [] \<or> path_end (hd (query_part u @ fragment_part u))"
  by (auto simp: query_part_def fragment_part_def path_end_def split: option.splits)

lemma parse_query_tail:
  assumes "url_ok u"
  shows "parse_query (query_part u @ fragment_part u) = query u"
proof (cases "query u")
  case None
  then show ?thesis
    by (auto simp: parse_query_def query_part_def fragment_part_def split: option.splits)
next
  case (Some q)
  with assms have q: "list_all (\<lambda>c. \<not> special_query_set c) q" by (simp add: url_ok_def)
  then have nh: "list_all (\<lambda>c. c \<noteq> CHR ''#'') q"
    using hash_query_set by (auto simp: list_all_iff)
  have "fragment_part u = [] \<or> \<not> (hd (fragment_part u) \<noteq> CHR ''#'')"
    by (auto simp: fragment_part_def split: option.splits)
  with nh have "takeWhile (\<lambda>x. x \<noteq> CHR ''#'') (q @ fragment_part u) = q"
    using takeWhile_all_append [of "\<lambda>x. x \<noteq> CHR ''#''" q "fragment_part u"] by blast
  with Some q show ?thesis
    by (simp add: parse_query_def query_part_def percent_encode_id)
qed

lemma parse_fragment_tail:
  assumes "url_ok u"
  shows "parse_fragment (query_part u @ fragment_part u) = fragment u"
proof -
  have nh: "list_all (\<lambda>c. c \<noteq> CHR ''#'') (query_part u)"
  proof (cases "query u")
    case None
    then show ?thesis by (simp add: query_part_def)
  next
    case (Some q)
    with assms have "list_all (\<lambda>c. \<not> special_query_set c) q" by (simp add: url_ok_def)
    with Some show ?thesis using hash_query_set by (auto simp: query_part_def list_all_iff)
  qed
  have "fragment_part u = [] \<or> \<not> (hd (fragment_part u) \<noteq> CHR ''#'')"
    by (auto simp: fragment_part_def split: option.splits)
  with nh have d: "dropWhile (\<lambda>x. x \<noteq> CHR ''#'') (query_part u @ fragment_part u) = fragment_part u"
    using takeWhile_all_append [of "\<lambda>x. x \<noteq> CHR ''#''" "query_part u" "fragment_part u"] by blast
  show ?thesis
  proof (cases "fragment u")
    case None
    then have "fragment_part u = []" by (simp add: fragment_part_def)
    with d None show ?thesis by (simp only: parse_fragment_def list.case)
  next
    case (Some f)
    with assms have f: "list_all (\<lambda>c. \<not> fragment_set c) f" by (simp add: url_ok_def)
    from Some have "fragment_part u = CHR ''#'' # f" by (simp add: fragment_part_def)
    with d Some f show ?thesis
      by (simp only: parse_fragment_def list.case percent_encode_id)
  qed
qed

lemma parse_authority_href:
  assumes "url_ok u"
  shows "parse_authority (scheme u)
           ((hostname u @ (if port u = [] then [] else CHR '':'' # port u))
            @ (path_string (segments u) @ query_part u @ fragment_part u)) = Some u"
proof -
  let ?H = "hostname u" and ?PP = "if port u = [] then [] else CHR '':'' # port u"
  let ?PS = "path_string (segments u)" and ?QF = "query_part u @ fragment_part u"
  let ?A = "?H @ ?PP" and ?R = "?PS @ ?QF"
  let ?P = "\<lambda>c. \<not> is_slash c \<and> \<not> path_end c"
  from assms have host: "parse_host ?H = Some ?H" and prt: "parse_port (scheme u) (port u) = Some (port u)"
    and segs: "segments u \<noteq> []" "list_all seg_ok (segments u)"
    by (simp_all add: url_ok_def)
  from parse_host_chars [OF host] have hc: "list_all host_char ?H" by simp
  from parse_port_digits [OF prt] have pd: "list_all is_digit (port u)" .
  have colon: "?P CHR '':'' \<and> CHR '':'' \<noteq> CHR ''@''"
    by (simp add: is_slash_def path_end_def)
  have A1: "list_all ?P ?A"
    using hc pd colon by (auto simp: list_all_iff dest: host_char_plain digit_host_char)
  have A2: "CHR ''@'' \<notin> set ?A"
    using hc pd by (auto simp: list_all_iff dest: host_char_plain digit_host_char)
  have R1: "?R = [] \<or> \<not> ?P (hd ?R)"
    using path_string_hd [OF segs(1)] by (auto simp: is_slash_def)
  from takeWhile_all_append [OF A1 R1]
  have auth: "takeWhile ?P (?A @ ?R) = ?A" "dropWhile ?P (?A @ ?R) = ?R" by simp_all
  have H1: "list_all (\<lambda>c. c \<noteq> CHR '':'') ?H"
    using hc by (auto simp: list_all_iff dest: host_char_plain)
  have "?PP = [] \<or> \<not> (hd ?PP \<noteq> CHR '':'')" by simp
  from takeWhile_all_append [OF H1 this]
  have hp: "takeWhile (\<lambda>c. c \<noteq> CHR '':'') ?A = ?H" "drop 1 (dropWhile (\<lambda>c. c \<noteq> CHR '':'') ?A) = port u"
    by simp_all
  have PS1: "list_all (\<lambda>c. \<not> path_end c) ?PS"
    using path_string_chars [OF segs(2)] by (auto simp: list_all_iff dest: path_end_path_set)
  have "?QF = [] \<or> \<not> \<not> path_end (hd ?QF)" using tail_hd [of u] by simp
  from takeWhile_all_append [OF PS1 this]
  have raw: "takeWhile (\<lambda>c. \<not> path_end c) ?R = ?PS" "dropWhile (\<lambda>c. \<not> path_end c) ?R = ?QF"
    by simp_all
  have pp: "parse_path ?PS [] = segments u"
    using segs by (intro parse_path_path_string)
  show ?thesis
    unfolding parse_authority_def Let_def auth hp raw
    using A2 host prt pp parse_query_tail [OF assms] parse_fragment_tail [OF assms]
    by simp
qed

lemma href_visible:
  assumes "url_ok u"
  shows "list_all (\<lambda>c. \<not> c0_or_space c) (href u)"
proof -
  from assms have host: "parse_host (hostname u) = Some (hostname u)"
    and prt: "parse_port (scheme u) (port u) = Some (port u)"
    and segs: "list_all seg_ok (segments u)"
    and sch: "scheme u = ''http'' \<or> scheme u = ''https''"
    by (simp_all add: url_ok_def)
  from parse_host_chars [OF host] have hc: "list_all host_char (hostname u)" by simp
  from parse_port_digits [OF prt] have pd: "list_all is_digit (port u)" .
  have lit: "list_all (\<lambda>c. \<not> c0_or_space c) ''https://:?#''"
    by (simp add: c0_or_space_def code_def)
  have s: "list_all (\<lambda>c. \<not> c0_or_space c) (scheme u @ CHR '':'' # ''//'')"
    using sch lit by auto
  have h: "list_all (\<lambda>c. \<not> c0_or_space c) (hostname u @ (if port u = [] then [] else CHR '':'' # port u))"
    using hc pd lit by (auto simp: list_all_iff dest: host_char_plain digit_host_char)
  have p: "list_all (\<lambda>c. \<not> c0_or_space c) (path_string (segments u))"
    using path_string_chars [OF segs] by (auto simp: list_all_iff dest: c0_or_space_path_set)
  have q: "list_all (\<lambda>c. \<not> c0_or_space c) (query_part u)"
    using assms lit
    by (auto simp: query_part_def url_ok_def list_all_iff split: option.splits dest: c0_or_space_path_set)
  have f: "list_all (\<lambda>c. \<not> c0_or_space c) (fragment_part u)"
    using assms lit
    by (auto simp: fragment_part_def url_ok_def list_all_iff split: option.splits dest: c0_or_space_path_set)
  from s h p q f show ?thesis
    unfolding href_parts by simp
qed

text \<open>Parsing the string form of a parsed URL gives the URL back, whatever the base.\<close>

lemma parseURL_href:
  assumes "url_ok u"
  shows "parseURL (href u) base = Some u"
proof -
  let ?A = "hostname u @ (if port u = [] then [] else CHR '':'' # port u)"
  let ?R = "path_string (segments u) @ query_part u @ fragment_part u"
  from assms have sch: "scheme u = ''http'' \<or> scheme u = ''https''"
    and host: "parse_host (hostname u) = Some (hostname u)"
    by (simp_all add: url_ok_def)
  have clean: "clean_input (href u) = href u"
    using href_visible [OF assms] by (rule clean_input_id)
  have split: "split_scheme (href u) = Some (scheme u, ''//'' @ ?A @ ?R)"
    unfolding href_parts using split_scheme_http [OF sch] by simp
  from parse_host_chars [OF host] obtain c cs where h: "hostname u = c # cs" "host_char c"
    by (cases "hostname u") auto
  then have ns: "\<not> is_slash c" by (auto dest: host_char_plain)
  have sl: "is_slash CHR ''/''" by (simp add: is_slash_def)
  have drop: "dropWhile is_slash (''//'' @ ?A @ ?R) = ?A @ ?R"
    using ns sl h(1) by simp
  have drop0: "dropWhile is_slash (?A @ ?R) = ?A @ ?R"
    using ns h(1) by simp
  note auth = parse_authority_href [OF assms]
  have rel: "parse_relative b (''//'' @ ?A @ ?R) = parse_authority (scheme b) (?A @ ?R)" for b
    using sl drop0 by (simp add: parse_relative_def Let_def)
  show ?thesis
  proof (cases base)
    case None
    with sch clean split drop auth show ?thesis
      by (auto simp: parseURL_def Let_def)
  next
    case (Some b)
    show ?thesis
    proof (cases "scheme b = scheme u")
      case True
      with Some sch clean split auth rel [of b] show ?thesis
        by (auto simp: parseURL_def Let_def)
    next
      case False
      with Some sch clean split drop auth show ?thesis
        by (auto simp: parseURL_def Let_def)
    qed
  qed
qed

section \<open>Facts about the year rewrite, segment by segment\<close>

declare path_string_Cons [simp del]

lemma lower_eq_slash [simp]: "ascii_lower c = CHR ''/'' \<longleftrightarrow> c = CHR ''/''"
  by (auto simp: ascii_lower_def)

lemma lower_slash: "ascii_lower CHR ''/'' = CHR ''/''"
  by (simp add: ascii_lower_def)

lemma digit_not_slash: "is_digit c \<Longrightarrow> c \<noteq> CHR ''/''"
  by (auto simp: is_digit_def)

lemma path_string_start: "path_string r = [] \<or> hd (path_string r) = CHR ''/''"
  by (cases r) (auto simp: path_string_Cons)

lemma path_string_Nil_iff [simp]: "path_string r = [] \<longleftrightarrow> r = []"
  by (cases r) (auto simp: path_string_Cons)

text \<open>
  Where a stretch without a slash ends: when the first \<open>n\<close> characters of \<open>z\<close> have no
  slash and a slash follows them, they are the stretch of \<open>z\<close> before its first slash.
\<close>

lemma slash_free_prefix:
  assumes t: "list_all (\<lambda>c. c \<noteq> CHR ''/'') (take n z)" "length (take n z) = n"
    and s: "take 1 (drop n z) = ''/''"
  shows "takeWhile (\<lambda>c. c \<noteq> CHR ''/'') z = take n z \<and> n < length z"
proof -
  let ?P = "\<lambda>c. c \<noteq> CHR ''/''"
  from s obtain d where d: "drop n z = CHR ''/'' # d"
    by (cases "drop n z") simp_all
  have "z = take n z @ drop n z" by simp
  then have e: "z = take n z @ CHR ''/'' # d" by (simp only: d)
  have "CHR ''/'' # d = [] \<or> \<not> ?P (hd (CHR ''/'' # d))" by simp
  from takeWhile_all_append [OF t(1) this]
  have "takeWhile ?P (take n z @ CHR ''/'' # d) = take n z" by simp
  with e have eq: "takeWhile ?P z = take n z" by simp
  from d have "n < length z" by (cases "n < length z") simp_all
  with eq show ?thesis by simp
qed

lemma segment_stretch:
  assumes "list_all (\<lambda>c. c \<noteq> CHR ''/'') w"
  shows "takeWhile (\<lambda>c. c \<noteq> CHR ''/'') (w @ path_string r) = w"
proof -
  from path_string_start [of r]
  have "path_string r = [] \<or> \<not> (\<lambda>c. c \<noteq> CHR ''/'') (hd (path_string r))" by simp
  from takeWhile_all_append [OF assms this] show ?thesis by simp
qed

lemma anchor_slash_free:
  assumes "map ascii_lower t = ''course_builder''"
  shows "list_all (\<lambda>c. c \<noteq> CHR ''/'') t"
proof -
  have n: "CHR ''/'' \<notin> set (map ascii_lower t)" by (simp only: assms) simp
  have "CHR ''/'' \<notin> set t"
  proof
    assume "CHR ''/'' \<in> set t"
    then have "ascii_lower CHR ''/'' \<in> set (map ascii_lower t)" by (simp only: set_map) (rule imageI)
    with n show False by (simp only: lower_slash)
  qed
  then show ?thesis by (auto simp: list_all_iff)
qed

text \<open>The anchor matches at the start of a segment exactly when the segment is the anchor.\<close>

lemma anchor_at_segment:
  assumes a: "list_all (\<lambda>c. c \<noteq> CHR ''/'') a"
  shows "map ascii_lower (take 16 (CHR ''/'' # a @ path_string rest)) = ''/course_builder/''
         \<longleftrightarrow> map ascii_lower a = ''course_builder'' \<and> rest \<noteq> []"
proof
  assume r: "map ascii_lower a = ''course_builder'' \<and> rest \<noteq> []"
  then have "length (map ascii_lower a) = 14" by simp
  then have la: "length a = 14" by simp
  from r obtain y ys where "rest = y # ys" by (cases rest) auto
  with la r show "map ascii_lower (take 16 (CHR ''/'' # a @ path_string rest)) = ''/course_builder/''"
    by (simp add: path_string_Cons)
next
  define z where "z = a @ path_string rest"
  assume "map ascii_lower (take 16 (CHR ''/'' # a @ path_string rest)) = ''/course_builder/''"
  then have l: "map ascii_lower (take 16 (CHR ''/'' # z)) = ''/course_builder/''"
    by (simp only: z_def)
  have "take 16 (CHR ''/'' # z) = CHR ''/'' # take 15 z" by (simp add: take_Cons')
  with l have l15: "map ascii_lower (take 15 z) = ''course_builder/''" by simp
  then have "length (map ascii_lower (take 15 z)) = 15" by simp
  then have len: "15 \<le> length z" by simp
  have sp: "take 15 z = take 14 z @ take 1 (drop 14 z)"
    using take_add [of 14 1 z] by simp
  have l14: "length (take 14 z) = 14" using len by simp
  have rhs: "''course_builder/'' = ''course_builder'' @ ''/''" by simp
  have lhs: "map ascii_lower (take 14 z) @ map ascii_lower (take 1 (drop 14 z))
                   = ''course_builder'' @ ''/''"
    using l15 unfolding sp map_append rhs .
  have "length (map ascii_lower (take 14 z)) = length ''course_builder''"
    using l14 by simp
  with lhs have "map ascii_lower (take 14 z) = ''course_builder''
      \<and> map ascii_lower (take 1 (drop 14 z)) = ''/''"
    using append_eq_append_conv
      [of "map ascii_lower (take 14 z)" "''course_builder''" "map ascii_lower (take 1 (drop 14 z))" "''/''"]
    by blast
  then have m: "map ascii_lower (take 14 z) = ''course_builder''"
    and s: "map ascii_lower (take 1 (drop 14 z)) = ''/''"
    by blast+
  from s have s1: "take 1 (drop 14 z) = ''/''"
    by (cases "take 1 (drop 14 z)") auto
  from slash_free_prefix [OF anchor_slash_free [OF m] l14 s1]
  have "takeWhile (\<lambda>c. c \<noteq> CHR ''/'') z = take 14 z" "14 < length z" by simp_all
  moreover have "takeWhile (\<lambda>c. c \<noteq> CHR ''/'') z = a"
    unfolding z_def using a by (rule segment_stretch)
  ultimately have "take 14 z = a" "length a < length z" using l14 by simp_all
  then have "path_string rest \<noteq> []" by (auto simp: z_def)
  with m \<open>take 14 z = a\<close> show "map ascii_lower a = ''course_builder'' \<and> rest \<noteq> []" by simp
qed

lemma year_shape_strip: "year_shape y \<longleftrightarrow> length (strip_underscore y) = 4 \<and> list_all is_digit (strip_underscore y)"
  by (simp add: year_shape_def strip_underscore_def Let_def)

lemma strip_underscore_append:
  "strip_underscore (y @ path_string r) = strip_underscore y @ path_string r"
proof (cases y)
  case Nil
  then show ?thesis by (cases r) (simp_all add: strip_underscore_def path_string_Cons)
next
  case (Cons c cs)
  then show ?thesis by (simp add: strip_underscore_def)
qed

lemma strip_underscore_slash_free:
  "list_all (\<lambda>c. c \<noteq> CHR ''/'') y \<Longrightarrow> list_all (\<lambda>c. c \<noteq> CHR ''/'') (strip_underscore y)"
  by (auto simp: strip_underscore_def list_all_iff dest: in_set_dropD)

text \<open>The year matches after the anchor exactly when the next segment is a year and not the last.\<close>

lemma year_at_segment_year:
  assumes y: "list_all (\<lambda>c. c \<noteq> CHR ''/'') y"
  shows "(let yy = strip_underscore (y @ path_string r)
          in length (take 4 yy) = 4 \<and> list_all is_digit (take 4 yy) \<and> take 1 (drop 4 yy) = ''/'')
         \<longleftrightarrow> year_shape y \<and> r \<noteq> []"
proof -
  let ?w = "strip_underscore y"
  define z where "z = ?w @ path_string r"
  have w: "list_all (\<lambda>c. c \<noteq> CHR ''/'') ?w" using y by (rule strip_underscore_slash_free)
  have tw: "takeWhile (\<lambda>c. c \<noteq> CHR ''/'') z = ?w"
    unfolding z_def using w by (rule segment_stretch)
  have "(length (take 4 z) = 4 \<and> list_all is_digit (take 4 z) \<and> take 1 (drop 4 z) = ''/'')
        \<longleftrightarrow> (length ?w = 4 \<and> list_all is_digit ?w \<and> r \<noteq> [])"
  proof
    assume c: "length (take 4 z) = 4 \<and> list_all is_digit (take 4 z) \<and> take 1 (drop 4 z) = ''/''"
    then have "list_all (\<lambda>c. c \<noteq> CHR ''/'') (take 4 z)"
      by (auto simp: list_all_iff dest: digit_not_slash)
    from slash_free_prefix [OF this] c tw
    have e: "take 4 z = ?w" and l: "4 < length z" by simp_all
    from e c have l4: "length ?w = 4" by simp
    with l have "path_string r \<noteq> []" by (auto simp: z_def)
    with e c l4 show "length ?w = 4 \<and> list_all is_digit ?w \<and> r \<noteq> []" by simp
  next
    assume c: "length ?w = 4 \<and> list_all is_digit ?w \<and> r \<noteq> []"
    then obtain q qs where "r = q # qs" by (cases r) auto
    with c show "length (take 4 z) = 4 \<and> list_all is_digit (take 4 z) \<and> take 1 (drop 4 z) = ''/''"
      by (simp add: z_def path_string_Cons)
  qed
  then show ?thesis
    unfolding Let_def strip_underscore_append year_shape_strip z_def by blast
qed

lemma year_at_unfold:
  "year_at s =
     (if map ascii_lower (take 16 s) = ''/course_builder/'' then
        (let yy = strip_underscore (drop 16 s)
         in if length (take 4 yy) = 4 \<and> list_all is_digit (take 4 yy) \<and> take 1 (drop 4 yy) = ''/''
            then Some (take 16 s, drop 5 yy)
            else None)
      else None)"
  by (simp add: year_at_def strip_underscore_def Let_def)

lemma year_at_segment:
  assumes "list_all (list_all (\<lambda>c. c \<noteq> CHR ''/'')) (a # rest)"
  shows "year_at (CHR ''/'' # a @ path_string rest) =
           (case rest of
              y # z # rest' \<Rightarrow>
                if map ascii_lower a = ''course_builder'' \<and> year_shape y
                then Some (CHR ''/'' # a @ ''/'', z @ path_string rest')
                else None
            | _ \<Rightarrow> None)"
proof -
  from assms have a: "list_all (\<lambda>c. c \<noteq> CHR ''/'') a" by simp
  note an = anchor_at_segment [OF a, of rest]
  show ?thesis
  proof (cases rest)
    case Nil
    with an show ?thesis by (simp add: year_at_unfold)
  next
    case (Cons y r)
    from assms Cons have y: "list_all (\<lambda>c. c \<noteq> CHR ''/'') y" by simp
    note yr = year_at_segment_year [OF y, of r]
    show ?thesis
    proof (cases "map ascii_lower a = ''course_builder''")
      case False
      with an Cons show ?thesis by (simp add: year_at_unfold split: list.splits)
    next
      case True
      then have "length (map ascii_lower a) = 14" by simp
      then have la: "length a = 14" by simp
      from la Cons have t16: "take 16 (CHR ''/'' # a @ path_string rest) = CHR ''/'' # a @ ''/''"
        and d16: "drop 16 (CHR ''/'' # a @ path_string rest) = y @ path_string r"
        by (simp_all add: path_string_Cons)
      from Cons have ne: "rest \<noteq> []" by simp
      from an True ne have anc: "map ascii_lower (take 16 (CHR ''/'' # a @ path_string rest)) = ''/course_builder/''"
        by blast
      let ?yy = "strip_underscore (y @ path_string r)"
      let ?c = "length (take 4 ?yy) = 4 \<and> list_all is_digit (take 4 ?yy) \<and> take 1 (drop 4 ?yy) = ''/''"
      have unf: "year_at (CHR ''/'' # a @ path_string rest)
                   = (if ?c then Some (CHR ''/'' # a @ ''/'', drop 5 ?yy) else None)"
        by (simp only: year_at_unfold d16 t16 anc [unfolded t16] Let_def if_True simp_thms)
      from yr have yr': "?c \<longleftrightarrow> year_shape y \<and> r \<noteq> []"
        unfolding Let_def .
      show ?thesis
      proof (cases "year_shape y \<and> r \<noteq> []")
        case False
        with yr' have "\<not> ?c" by blast
        then have "(if ?c then Some (CHR ''/'' # a @ ''/'', drop 5 ?yy) else None) = None"
          by (rule if_not_P)
        with unf have "year_at (CHR ''/'' # a @ path_string rest) = None"
          by (rule trans)
        with False Cons True show ?thesis by (auto split: list.splits)
      next
        case ys: True
        then obtain z rest' where r: "r = z # rest'" by (cases r) auto
        from ys have l4: "length (strip_underscore y) = 4" by (simp add: year_shape_strip)
        from ys yr' have c: ?c by blast
        have d5: "drop 5 ?yy = z @ path_string rest'"
          using l4 by (simp add: strip_underscore_append) (simp add: r path_string_Cons)
        from c have "(if ?c then Some (CHR ''/'' # a @ ''/'', drop 5 ?yy) else None)
            = Some (CHR ''/'' # a @ ''/'', drop 5 ?yy)"
          by (rule if_P)
        with unf have "year_at (CHR ''/'' # a @ path_string rest)
            = Some (CHR ''/'' # a @ ''/'', z @ path_string rest')"
          by (simp only: d5)
        with ys Cons True r show ?thesis by simp
      qed
    qed
  qed
qed

text \<open>No match starts inside a segment: a match starts with a slash.\<close>

lemma year_at_no_slash: "c \<noteq> CHR ''/'' \<Longrightarrow> year_at (c # s) = None"
  by (auto simp: year_at_def)

lemma replace_year_inside:
  "list_all (\<lambda>c. c \<noteq> CHR ''/'') a \<Longrightarrow> replace_year r (a @ x) = a @ replace_year r x"
  by (induction a) (simp_all add: year_at_no_slash)

lemma replace_year_step:
  assumes "list_all (\<lambda>c. c \<noteq> CHR ''/'') a" "year_at (CHR ''/'' # a @ path_string rest) = None"
  shows "replace_year r (path_string (a # rest)) = CHR ''/'' # a @ replace_year r (path_string rest)"
proof -
  have "replace_year r (CHR ''/'' # a @ path_string rest)
          = CHR ''/'' # replace_year r (a @ path_string rest)"
    using assms(2) by simp
  also have "\<dots> = CHR ''/'' # a @ replace_year r (path_string rest)"
    using assms(1) by (simp add: replace_year_inside)
  finally show ?thesis by (simp add: path_string_Cons)
qed

lemma replace_year_one:
  assumes "list_all (list_all (\<lambda>c. c \<noteq> CHR ''/'')) [v]"
  shows "replace_year r (path_string [v]) = path_string (year_segments r [v])"
proof -
  from assms have v: "list_all (\<lambda>c. c \<noteq> CHR ''/'') v" by simp
  from year_at_segment [OF assms] have "year_at (CHR ''/'' # v @ path_string []) = None" by simp
  from replace_year_step [OF v this] show ?thesis by (simp add: path_string_Cons)
qed

lemma replace_year_two:
  assumes "list_all (list_all (\<lambda>c. c \<noteq> CHR ''/'')) [v, va]"
  shows "replace_year r (path_string [v, va]) = path_string (year_segments r [v, va])"
proof -
  from assms have v: "list_all (\<lambda>c. c \<noteq> CHR ''/'') v" "list_all (\<lambda>c. c \<noteq> CHR ''/'') va"
    by simp_all
  from year_at_segment [OF assms] have n1: "year_at (CHR ''/'' # v @ path_string [va]) = None"
    by simp
  have "list_all (list_all (\<lambda>c. c \<noteq> CHR ''/'')) [va]" using v by simp
  from year_at_segment [OF this] have n2: "year_at (CHR ''/'' # va @ path_string []) = None"
    by simp
  from replace_year_step [OF v(1) n1] replace_year_step [OF v(2) n2] show ?thesis
    by (simp add: path_string_Cons)
qed

lemma replace_year_segments:
  "list_all (list_all (\<lambda>c. c \<noteq> CHR ''/'')) segs \<Longrightarrow>
   replace_year r (path_string segs) = path_string (year_segments r segs)"
proof (induction r segs rule: year_segments.induct)
  case (1 r a y z rest)
  note ya = year_at_segment [OF "1.prems"]
  from "1.prems" have a: "list_all (\<lambda>c. c \<noteq> CHR ''/'') a" by simp
  have L: "path_string (a # y # z # rest) = CHR ''/'' # a @ path_string (y # z # rest)"
    by (rule path_string_Cons)
  show ?case
  proof (cases "map ascii_lower a = ''course_builder'' \<and> year_shape y")
    case True
    with ya have "year_at (CHR ''/'' # a @ path_string (y # z # rest))
                    = Some (CHR ''/'' # a @ ''/'', z @ path_string rest)" by simp
    then have "replace_year r (CHR ''/'' # a @ path_string (y # z # rest))
                 = (CHR ''/'' # a @ ''/'') @ r @ ''/'' @ z @ path_string rest"
      by simp
    moreover have "path_string (year_segments r (a # y # z # rest))
                 = (CHR ''/'' # a @ ''/'') @ r @ ''/'' @ z @ path_string rest"
      using True by (simp add: path_string_Cons)
    ultimately show ?thesis by (simp only: L)
  next
    case False
    with ya have n: "year_at (CHR ''/'' # a @ path_string (y # z # rest)) = None" by auto
    from False "1.IH" "1.prems"
    have ih: "replace_year r (path_string (y # z # rest)) = path_string (year_segments r (y # z # rest))"
      by simp
    have "replace_year r (path_string (a # y # z # rest))
            = CHR ''/'' # a @ replace_year r (path_string (y # z # rest))"
      using a n by (rule replace_year_step)
    also have "\<dots> = CHR ''/'' # a @ path_string (year_segments r (y # z # rest))"
      by (simp only: ih)
    also have "\<dots> = path_string (a # year_segments r (y # z # rest))"
      by (simp only: path_string_Cons)
    also have "a # year_segments r (y # z # rest) = year_segments r (a # y # z # rest)"
      using False by auto
    finally show ?thesis .
  qed
next
  case "2_1"
  then show ?case by simp
next
  case "2_2"
  then show ?case by (rule replace_year_one)
next
  case "2_3"
  then show ?case by (rule replace_year_two)
qed

section \<open>Facts about \<^verbatim>\<open>normalizeUrl\<close>\<close>

lemma year_shape_chars:
  assumes "year_shape r"
  shows "list_all (\<lambda>c. is_digit c \<or> c = CHR ''_'') r \<and> 4 \<le> length r"
proof (cases "take 1 r = ''_''")
  case True
  then obtain cs where r: "r = CHR ''_'' # cs" by (cases r) auto
  with assms show ?thesis by (auto simp: year_shape_def list_all_iff)
next
  case False
  with assms show ?thesis by (auto simp: year_shape_def list_all_iff)
qed

lemma year_char_plain: "is_digit c \<or> c = CHR ''_'' \<Longrightarrow> \<not> path_set c \<and> \<not> is_slash c \<and> c \<noteq> CHR ''.'' \<and> c \<noteq> CHR ''%''"
  by (auto simp: is_digit_def path_set_def query_set_def c0_control_set_def is_slash_def code_def)

lemma year_shape_seg_ok:
  assumes "year_shape r"
  shows "seg_ok r"
proof -
  from year_shape_chars [OF assms] have c: "list_all (\<lambda>c. is_digit c \<or> c = CHR ''_'') r" and l: "4 \<le> length r"
    by simp_all
  have pc: "\<not> path_set x \<and> \<not> is_slash x \<and> x \<noteq> CHR ''%''" if "x \<in> set r" for x
  proof -
    from c that have "is_digit x \<or> x = CHR ''_''" by (simp add: list_all_iff)
    then show ?thesis using year_char_plain [of x] by blast
  qed
  then have p: "list_all (\<lambda>c. \<not> path_set c \<and> \<not> is_slash c) r"
    by (simp add: list_all_iff)
  from l have "length (map ascii_lower r) \<noteq> 2" "length (map ascii_lower r) \<noteq> 1" by simp_all
  moreover from pc have "CHR ''%'' \<notin> set r"
    by blast
  then have "CHR ''%'' \<notin> set (map ascii_lower r)"
    by (auto simp: ascii_lower_def split: option.splits if_splits)
  ultimately have "\<not> is_double_dot r" "\<not> is_single_dot r"
    by (auto simp: is_double_dot_def is_single_dot_def)
  with p show ?thesis by (simp add: seg_ok_def)
qed

lemma year_segments_ok:
  "seg_ok r \<Longrightarrow> list_all seg_ok segs \<Longrightarrow> list_all seg_ok (year_segments r segs)"
  by (induction r segs rule: year_segments.induct) auto

lemma year_segments_not_Nil: "segs \<noteq> [] \<Longrightarrow> year_segments r segs \<noteq> []"
  by (induction r segs rule: year_segments.induct) auto

lemma year_segments_length [simp]: "length (year_segments r segs) = length segs"
  by (induction r segs rule: year_segments.induct) auto

text \<open>A second rewrite finds the same place and writes the same year.\<close>

lemma year_segments_idem:
  "year_shape r \<Longrightarrow> year_segments r (year_segments r segs) = year_segments r segs"
proof (induction r segs rule: year_segments.induct)
  case (1 r a y z rest)
  show ?case
  proof (cases "map ascii_lower a = ''course_builder'' \<and> year_shape y")
    case True
    with "1.prems" show ?thesis by simp
  next
    case False
    with "1.IH" "1.prems"
    have ih: "year_segments r (year_segments r (y # z # rest)) = year_segments r (y # z # rest)"
      by simp
    have len: "length (year_segments r (y # z # rest)) = length (y # z # rest)" by simp
    then obtain y' z' rest' where s: "year_segments r (y # z # rest) = y' # z' # rest'"
      by (cases "year_segments r (y # z # rest)"; cases "tl (year_segments r (y # z # rest))") auto
    have y': "y' = y"
    proof (cases rest)
      case Nil
      with s show ?thesis by simp
    next
      case (Cons q qs)
      with s show ?thesis by (auto split: if_splits)
    qed
    from False y' have nm: "\<not> (map ascii_lower a = ''course_builder'' \<and> year_shape y')" by simp
    have "year_segments r (year_segments r (a # y # z # rest)) = year_segments r (a # y' # z' # rest')"
      using False s by auto
    also have "\<dots> = a # year_segments r (y' # z' # rest')"
      using nm by auto
    also have "\<dots> = a # year_segments r (y # z # rest)"
      using ih s by simp
    also have "\<dots> = year_segments r (a # y # z # rest)"
      using False by auto
    finally show ?thesis .
  qed
qed simp_all

lemma seg_ok_slash_free: "list_all seg_ok segs \<Longrightarrow> list_all (list_all (\<lambda>c. c \<noteq> CHR ''/'')) segs"
  by (auto simp: list_all_iff seg_ok_def is_slash_def)

lemma filter_tab_path_string:
  assumes "list_all seg_ok segs"
  shows "filter (\<lambda>c. \<not> tab_or_newline c) (path_string segs) = path_string segs"
  using path_string_chars [OF assms]
  by (auto simp: list_all_iff intro!: filter_True dest: tab_or_newline_c0 c0_or_space_path_set)

text \<open>The year rewrite of a parsed URL, on its segments.\<close>

lemma set_pathname_replace_year:
  assumes "url_ok t" "year_shape r"
  shows "set_pathname t (replace_year r (pathname t)) = t\<lparr>segments := year_segments r (segments t)\<rparr>"
proof -
  from assms(1) have segs: "list_all seg_ok (segments t)" "segments t \<noteq> []"
    by (simp_all add: url_ok_def)
  let ?s = "year_segments r (segments t)"
  have ok: "list_all seg_ok ?s" "?s \<noteq> []"
    using segs year_shape_seg_ok [OF assms(2)]
    by (simp_all add: year_segments_ok year_segments_not_Nil)
  have "replace_year r (pathname t) = path_string ?s"
    unfolding pathname_def using seg_ok_slash_free [OF segs(1)] by (rule replace_year_segments)
  moreover have "parse_path (filter (\<lambda>c. \<not> tab_or_newline c) (path_string ?s)) [] = ?s"
    using ok by (simp add: filter_tab_path_string parse_path_path_string)
  ultimately show ?thesis by (simp add: set_pathname_def)
qed

lemma set_pathname_same:
  assumes "url_ok u"
  shows "set_pathname u (pathname u) = u"
proof -
  from assms have segs: "list_all seg_ok (segments u)" "segments u \<noteq> []"
    by (simp_all add: url_ok_def)
  then show ?thesis
    by (simp add: set_pathname_def pathname_def filter_tab_path_string parse_path_path_string)
qed

lemma set_hostname_host_of:
  "set_hostname u v = (case host_of v of None \<Rightarrow> u | Some h \<Rightarrow> u\<lparr>hostname := h\<rparr>)"
  by (simp add: set_hostname_def host_of_def Let_def)

lemma host_fix_ok: "url_ok t \<Longrightarrow> url_ok (host_fix cfg t)"
  by (simp add: host_fix_def set_hostname_ok clear_port_ok)

lemma host_fix_again:
  assumes "hostname u = hostname (host_fix cfg t)" "port u = port (host_fix cfg t)"
  shows "host_fix cfg u = u"
proof (cases "forceHostReplacement cfg \<and> hostname t = hostNeedingFix cfg")
  case True
  then have t1: "host_fix cfg t = clear_port (set_hostname t (hostReplacement cfg))"
    by (simp add: host_fix_def)
  with assms have p: "port u = []" by (simp add: clear_port_def)
  show ?thesis
  proof (cases "host_of (hostReplacement cfg)")
    case None
    with p show ?thesis
      by (cases u) (simp add: host_fix_def set_hostname_host_of clear_port_def)
  next
    case (Some h)
    with t1 assms(1) have "hostname u = h"
      by (simp add: set_hostname_host_of clear_port_def)
    with p Some show ?thesis
      by (cases u) (simp add: host_fix_def set_hostname_host_of clear_port_def)
  qed
next
  case False
  then have "host_fix cfg t = t" by (auto simp: host_fix_def)
  with assms(1) False show ?thesis by (auto simp: host_fix_def)
qed

lemma normalizeUrl_unfold:
  "normalizeUrl cfg loc h =
     (case parseURL h (Some loc) of
        None \<Rightarrow> None
      | Some target \<Rightarrow>
          Some (if applyYearRewrite cfg
                then set_pathname (host_fix cfg target)
                       (replace_year (yearPrefix cfg @ courseYearDigits cfg) (pathname (host_fix cfg target)))
                else host_fix cfg target))"
  by (simp add: normalizeUrl_def host_fix_def Let_def split: option.splits)

lemma anchor_year_Cons: "anchor_year (a # segs) (Suc i) = anchor_year segs i"
  by (simp add: anchor_year_def)

lemma anchor_year_0:
  "anchor_year (a # y # z # rest) 0 \<longleftrightarrow> map ascii_lower a = ''course_builder'' \<and> year_shape y"
  by (simp add: anchor_year_def)

lemma anchor_year_short: "length segs < 3 \<Longrightarrow> \<not> anchor_year segs i"
  by (simp add: anchor_year_def)

text \<open>The year rewrite changes the segment after the first anchor with a year, and nothing else.\<close>

lemma year_segments_first:
  "(year_segments r segs = segs \<and> (\<forall>i. \<not> anchor_year segs i))
   \<or> (\<exists>i. anchor_year segs i \<and> (\<forall>j<i. \<not> anchor_year segs j)
          \<and> year_segments r segs = segs[i + 1 := r])"
proof (induction r segs rule: year_segments.induct)
  case (1 r a y z rest)
  show ?case
  proof (cases "map ascii_lower a = ''course_builder'' \<and> year_shape y")
    case True
    then have "anchor_year (a # y # z # rest) 0" by (simp add: anchor_year_0)
    moreover from True have "year_segments r (a # y # z # rest) = (a # y # z # rest)[0 + 1 := r]"
      by simp
    ultimately show ?thesis by blast
  next
    case False
    then have n0: "\<not> anchor_year (a # y # z # rest) 0" by (simp add: anchor_year_0)
    from False have ys: "year_segments r (a # y # z # rest) = a # year_segments r (y # z # rest)"
      by auto
    from "1.IH" False
    consider "year_segments r (y # z # rest) = y # z # rest" "\<forall>i. \<not> anchor_year (y # z # rest) i"
      | i where "anchor_year (y # z # rest) i" "\<forall>j<i. \<not> anchor_year (y # z # rest) j"
          "year_segments r (y # z # rest) = (y # z # rest)[i + 1 := r]"
      by blast
    then show ?thesis
    proof cases
      case 1
      have "\<not> anchor_year (a # y # z # rest) i" for i
        using n0 1(2) anchor_year_Cons [of a "y # z # rest"] by (cases i) auto
      with ys 1(1) show ?thesis by simp
    next
      case (2 i)
      have a: "anchor_year (a # y # z # rest) (Suc i)"
        using 2(1) by (simp only: anchor_year_Cons)
      have b: "\<not> anchor_year (a # y # z # rest) j" if "j < Suc i" for j
        using that n0 2(2) anchor_year_Cons [of a "y # z # rest"] by (cases j) auto
      have c: "year_segments r (a # y # z # rest) = (a # y # z # rest)[Suc i + 1 := r]"
        using ys 2(3) by simp
      from a b c show ?thesis by blast
    qed
  qed
qed (simp_all add: anchor_year_short)

lemma no_anchor_no_place:
  assumes "\<forall>s \<in> set segs. map ascii_lower s \<noteq> ''course_builder''"
  shows "\<not> anchor_year segs i"
proof
  assume "anchor_year segs i"
  then have "i < length segs" "map ascii_lower (segs ! i) = ''course_builder''"
    by (simp_all add: anchor_year_def)
  with assms show False by (metis nth_mem)
qed

lemma year_segments_no_anchor:
  assumes "\<forall>s \<in> set segs. map ascii_lower s \<noteq> ''course_builder''"
  shows "year_segments r segs = segs"
  using year_segments_first [of r segs] no_anchor_no_place [OF assms] by blast

section \<open>Decoding the segments of a parsed path\<close>

lemma split_by_plain: "list_all (\<lambda>c. \<not> sep c) s \<Longrightarrow> split_by sep s = [s]"
  by (induction s) (auto split: list.splits)

lemma split_chr_plain: "c \<notin> set s \<Longrightarrow> split_chr c s = [s]"
  unfolding split_chr_def by (rule split_by_plain) (auto simp: list_all_iff)

lemma split_pathname:
  assumes "url_ok u"
  shows "split_chr CHR ''/'' (pathname u) = [] # segments u"
proof -
  from assms have "list_all seg_ok (segments u)" by (simp add: url_ok_def)
  then have "list_all (list_all (\<lambda>c. \<not> c = CHR ''/'')) (segments u)"
    using seg_ok_slash_free by simp
  then have "split_by (\<lambda>x. x = CHR ''/'') ([] @ concat (map ((#) CHR ''/'') (segments u)))
    = [] # segments u"
    by (intro split_by_join) simp_all
  then show ?thesis by (simp add: split_chr_def pathname_def path_string_def)
qed

lemma hex_dot:
  assumes "is_hex h1" "is_hex h2" "16 * hex_value h1 + hex_value h2 = 46"
  shows "h1 = CHR ''2'' \<and> (h2 = CHR ''e'' \<or> h2 = CHR ''E'')"
proof -
  from assms(1) have a: "hex_value h1 < 16" by (auto simp: is_hex_def hex_value_def)
  from assms(2) have b: "hex_value h2 < 16" by (auto simp: is_hex_def hex_value_def)
  from a b assms(3) have v: "hex_value h1 = 2 \<and> hex_value h2 = 14" by arith
  from assms(1) v have "h1 = CHR ''2''" by (auto simp: is_hex_def hex_value_def)
  moreover from assms(2) v have "h2 = CHR ''e'' \<or> h2 = CHR ''E''"
    by (auto simp: is_hex_def hex_value_def)
  ultimately show ?thesis by simp
qed

lemma char_of_dot: "b < 256 \<Longrightarrow> (char_of b :: char) = CHR ''.'' \<Longrightarrow> b = (46::nat)"
proof -
  assume b: "b < 256" and c: "(char_of b :: char) = CHR ''.''"
  from c have "of_char (char_of b :: char) = (of_char CHR ''.'' :: nat)" by simp
  with b show ?thesis by (simp add: of_char_of)
qed

text \<open>The text whose decoding starts with a dot starts with a dot or with its escape.\<close>

lemma decode_first_dot:
  assumes "decode_tokens [] 0 lo hi (tokens p) = Some (CHR ''.'' # rest)"
  shows "\<exists>a q. p = a @ q \<and> a \<in> {''.'', ''%2e'', ''%2E''}
               \<and> decode_tokens [] 0 lo hi (tokens q) = Some rest"
proof (cases p)
  case Nil
  with assms show ?thesis by simp
next
  case (Cons c cs)
  show ?thesis
  proof (cases "c = CHR ''%''")
    case False
    with Cons assms have "c = CHR ''.'' \<and> decode_tokens [] 0 lo hi (tokens cs) = Some rest"
      by auto
    with Cons have "p = ''.'' @ cs \<and> ''.'' \<in> {''.'', ''%2e'', ''%2E''}
      \<and> decode_tokens [] 0 lo hi (tokens cs) = Some rest"
      by simp
    then show ?thesis by blast
  next
    case True
    with Cons assms obtain h1 h2 q where cs: "cs = h1 # h2 # q" and h: "is_hex h1" "is_hex h2"
      by (auto split: list.splits if_splits)
    define b where "b = 16 * hex_value h1 + hex_value h2"
    from Cons True cs h assms
    have d: "decode_tokens [] 0 lo hi (Esc h1 h2 # tokens q) = Some (CHR ''.'' # rest)"
      by simp
    from h have "b < 256" by (auto simp: b_def is_hex_def hex_value_def)
    moreover from d have "char_of b = CHR ''.''"
      by (auto simp: Let_def b_def split: if_splits option.splits)
    ultimately have v: "b = 46" by (rule char_of_dot)
    with d have r: "decode_tokens [] 0 lo hi (tokens q) = Some rest"
      by (auto simp: Let_def b_def)
    from h v have "h1 = CHR ''2'' \<and> (h2 = CHR ''e'' \<or> h2 = CHR ''E'')"
      unfolding b_def by (intro hex_dot)
    with Cons True cs have "p = ''%2e'' @ q \<or> p = ''%2E'' @ q" by auto
    with r show ?thesis by blast
  qed
qed

lemma decode_Nil:
  assumes "decode_tokens r 0 lo hi (tokens p) = Some []"
  shows "p = []"
proof (cases p)
  case Nil
  then show ?thesis .
next
  case (Cons c cs)
  with assms show ?thesis
    by (cases "c = CHR ''%''") (auto simp: Let_def split: list.splits if_splits option.splits)
qed

lemma decode_single_dot:
  assumes "decodeURIComponent p = Some ''.''"
  shows "is_single_dot p"
proof -
  from assms obtain a q where p: "p = a @ q" and a: "a \<in> {''.'', ''%2e'', ''%2E''}"
    and q: "decode_tokens [] 0 0 0 (tokens q) = Some []"
    unfolding decodeURIComponent_def using decode_first_dot by blast
  from q have "q = []" by (rule decode_Nil)
  with p a have "p \<in> set [''.'', ''%2e'', ''%2E'']" by simp
  moreover have "\<forall>x \<in> set [''.'', ''%2e'', ''%2E'']. is_single_dot x" by code_simp
  ultimately show ?thesis by blast
qed

lemma decode_double_dot:
  assumes "decodeURIComponent p = Some ''..''"
  shows "is_double_dot p"
proof -
  from assms obtain a q where p: "p = a @ q" and a: "a \<in> {''.'', ''%2e'', ''%2E''}"
    and q: "decode_tokens [] 0 0 0 (tokens q) = Some ''.''"
    unfolding decodeURIComponent_def using decode_first_dot by blast
  from q obtain b t where q': "q = b @ t" and b: "b \<in> {''.'', ''%2e'', ''%2E''}"
    and t: "decode_tokens [] 0 0 0 (tokens t) = Some []"
    using decode_first_dot by blast
  from t have "t = []" by (rule decode_Nil)
  with p a q' b have "\<exists>x \<in> set [''.'', ''%2e'', ''%2E''].
    \<exists>y \<in> set [''.'', ''%2e'', ''%2E'']. p = x @ y"
    by auto
  moreover have "\<forall>x \<in> set [''.'', ''%2e'', ''%2E''].
    \<forall>y \<in> set [''.'', ''%2e'', ''%2E'']. is_double_dot (x @ y)"
    by code_simp
  ultimately show ?thesis by blast
qed

lemma decode_not_Nil:
  assumes "decodeURIComponent p = Some d" "p \<noteq> []"
  shows "d \<noteq> []"
  using assms decode_Nil [of "[]" 0 0 p] by (auto simp: decodeURIComponent_def)

text \<open>A segment of a parsed path decodes to a name that is not empty and not a dot segment.\<close>

lemma decode_seg_ok:
  assumes "seg_ok p" "p \<noteq> []" "decodeURIComponent p = Some d"
  shows "d \<noteq> [] \<and> d \<noteq> ''.'' \<and> d \<noteq> ''..''"
  using assms decode_not_Nil decode_single_dot decode_double_dot
  by (auto simp: seg_ok_def)

lemma decode_all_ok:
  assumes "decode_all ps = Some ds" "list_all (\<lambda>p. seg_ok p \<and> p \<noteq> []) ps"
  shows "list_all (\<lambda>d. d \<noteq> [] \<and> d \<noteq> ''.'' \<and> d \<noteq> ''..'') ds"
  using assms
proof (induction ps arbitrary: ds)
  case Nil
  then show ?case by simp
next
  case (Cons p ps)
  from Cons.prems(1) obtain d ds' where d: "decodeURIComponent p = Some d"
    and ds': "decode_all ps = Some ds'" and ds: "ds = d # ds'"
    by (auto split: option.splits)
  from Cons.prems(2) d have "d \<noteq> [] \<and> d \<noteq> ''.'' \<and> d \<noteq> ''..''"
    by (intro decode_seg_ok [of p]) simp_all
  moreover from Cons.IH [OF ds'] Cons.prems(2)
  have "list_all (\<lambda>d. d \<noteq> [] \<and> d \<noteq> ''.'' \<and> d \<noteq> ''..'') ds'" by simp
  ultimately show ?case using ds by simp
qed

text \<open>The segments that \<^verbatim>\<open>localPathFromUrl\<close> decodes are segments of the parsed path.\<close>

lemma localSegments_parts:
  assumes "localSegments url_str = Inr decoded"
  shows "\<exists>u ps. parseURL url_str None = Some u \<and> decode_all ps = Some decoded
          \<and> list_all (\<lambda>p. seg_ok p \<and> p \<noteq> []) ps"
proof -
  from assms obtain u where u: "parseURL url_str None = Some u"
    by (auto simp: localSegments_def split: option.splits)
  then have ok: "url_ok u" using parseURL_ok [of None url_str u] by simp
  define parts where "parts = filter (\<lambda>s. s \<noteq> []) (split_chr CHR ''/'' (pathname u))"
  define ps where "ps = (case parts of [] \<Rightarrow> [] | p # ps \<Rightarrow> if p = ''course_builder'' then ps else parts)"
  from ok have "parts = filter (\<lambda>s. s \<noteq> []) (segments u)"
    by (simp add: parts_def split_pathname)
  moreover from ok have "list_all seg_ok (segments u)" by (simp add: url_ok_def)
  ultimately have a: "list_all (\<lambda>p. seg_ok p \<and> p \<noteq> []) parts"
    by (auto simp: list_all_iff)
  then have b: "list_all (\<lambda>p. seg_ok p \<and> p \<noteq> []) ps"
    by (cases parts) (auto simp: ps_def)
  from assms u have "decode_all ps = Some decoded"
    unfolding ps_def parts_def localSegments_def Let_def by (auto split: option.splits)
  with u b show ?thesis by blast
qed

section \<open>\<^verbatim>\<open>path.join\<close> on names without a slash\<close>

lemma normalize_segments_plain:
  "list_all (\<lambda>d. d \<noteq> [] \<and> d \<noteq> ''.'' \<and> d \<noteq> ''..'') segs \<Longrightarrow>
   normalize_segments acc segs = acc @ segs"
  by (induction segs arbitrary: acc) auto


lemma concat_split_plain:
  "list_all (\<lambda>d. CHR ''/'' \<notin> set d) ds \<Longrightarrow> concat (map (split_chr CHR ''/'') ds) = ds"
  by (induction ds) (auto simp: split_chr_plain)

lemma path_join_plain:
  assumes "list_all (\<lambda>d. d \<noteq> [] \<and> d \<noteq> ''.'' \<and> d \<noteq> ''..'') ds"
    and "list_all (\<lambda>d. CHR ''/'' \<notin> set d) ds"
  shows "path_join root ds = (root @ ds, False)"
proof -
  from assms(1) have f: "filter (\<lambda>p. p \<noteq> []) ds = ds"
    by (auto simp: list_all_iff intro!: filter_True)
  have l: "ds \<noteq> [] \<Longrightarrow> last ds \<noteq> []"
    using assms(1) by (auto simp: list_all_iff dest: last_in_set)
  from f assms l show ?thesis
    by (auto simp: path_join_def Let_def concat_split_plain normalize_segments_plain)
qed

section \<open>The model as a \<^verbatim>\<open>URL\<close> class\<close>

lemma URL_model_fields:
  "new_URL URL_model input None = parseURL input None"
  "get_href URL_model = href" "get_origin URL_model = origin"
  "get_hostname URL_model = hostname" "get_pathname URL_model = pathname"
  "get_search URL_model = search" "get_hash URL_model = hash"
  "put_hostname URL_model = set_hostname" "put_port_empty URL_model = clear_port"
  "put_pathname URL_model = set_pathname"
  by (simp_all add: URL_model_def)

text \<open>The URL of the page, written out and parsed again, is the URL of the page.\<close>

lemma new_URL_model_loc:
  assumes "url_ok loc"
  shows "new_URL URL_model h (Some (get_href URL_model loc)) = parseURL h (Some loc)"
  using parseURL_href [OF assms, of None] by (simp add: URL_model_def)

lemma normalizeUrl_on_model:
  assumes "url_ok loc"
  shows "normalizeUrl_on URL_model cfg loc h = normalizeUrl cfg loc h"
  unfolding normalizeUrl_on_def normalizeUrl_def new_URL_model_loc [OF assms]
  by (simp only: URL_model_fields)

lemma usable_on_model: "usable_on URL_model s = usable s"
  unfolding usable_on_def usable_def by (simp only: URL_model_fields)

lemma localPathFromUrl_on_model:
  "localPathFromUrl_on URL_model strippedRoots_index root s = localPathFromUrl root s"
proof (cases "parseURL s None")
  case None
  then show ?thesis
    by (simp add: localPathFromUrl_on_def localPathFromUrl_def localSegments_def URL_model_fields)
next
  case (Some u)
  then show ?thesis
    by (simp add: localPathFromUrl_on_def localPathFromUrl_def localSegments_def URL_model_fields
        strippedRoots_index_def Let_def split: option.splits list.splits)
qed

section \<open>The passes, case by case\<close>

lemma normalizeUrl_on_None_iff:
  "normalizeUrl_on cls cfg loc h = None \<longleftrightarrow> new_URL cls h (Some (get_href cls loc)) = None"
  by (simp add: normalizeUrl_on_def Let_def split: option.splits)

lemma li_url_Some_iff:
  "li_url cls cfg loc (Some a_href) = Some s \<longleftrightarrow>
     \<not> includes_str a_href ''javascript:''
     \<and> (\<exists>fixed. normalizeUrl_on cls cfg loc a_href = Some fixed \<and> s = get_href cls fixed)"
  by (auto simp: li_url_def split: option.splits)

lemma usable_on_iff:
  "usable_on cls s \<longleftrightarrow>
     \<not> startsWith s STAFF_PREFIX
     \<and> (\<exists>u. new_URL cls s None = Some u \<and> get_hostname cls u \<in> set ALLOWED_HOSTS
            \<and> startsWith (get_pathname cls u) ''/course_builder/'')"
  by (auto simp: usable_on_def split: option.splits)

lemma set_downloadUrls:
  "set (downloadUrls cls cfg loc lis) = {s. \<exists>li \<in> set lis. li_url cls cfg loc li = Some s}"
  by (induction lis) (auto simp: downloadUrls_def map_filter_simps split: option.splits)

lemma rewriteHref_dropped:
  "rawHref = [] \<or> startsWith rawHref ''javascript:''
   \<or> new_URL cls rawHref (Some (get_href cls loc)) = None
   \<or> (\<exists>fixed. normalizeUrl_on cls cfg loc rawHref = Some fixed
         \<and> startsWith (get_href cls fixed) (staffPrefix cfg))
   \<Longrightarrow> rewriteHref cls cfg loc rawHref = None"
  using normalizeUrl_on_None_iff [of cls cfg loc rawHref]
  by (auto simp: rewriteHref_def split: option.splits)

lemma rewriteHref_replaced:
  assumes "rawHref \<noteq> []" "\<not> startsWith rawHref ''javascript:''"
    and "normalizeUrl_on cls cfg loc rawHref = Some fixed"
    and "\<not> startsWith (get_href cls fixed) (staffPrefix cfg)"
  shows "rewriteHref cls cfg loc rawHref =
     Some (if get_origin cls fixed = get_origin cls loc
              \<and> startsWith (get_pathname cls fixed) ''/course_builder/''
           then toRelative (splitSegments (baseDir (get_pathname cls loc))) (get_pathname cls fixed)
                @ get_search cls fixed @ get_hash cls fixed
           else get_href cls fixed)"
  using assms by (simp add: rewriteHref_def)

text \<open>A string map none of whose keys occurs in the attribute leaves it as it is.\<close>

lemma foldl_replaceEntry_unmatched:
  "list_all (\<lambda>entry. \<not> includes_str v (fst entry)) replacements \<Longrightarrow>
   foldl replaceEntry v replacements = v"
  by (induction replacements) (auto simp: replaceEntry_def split: prod.splits)

lemma stringMapHref_unmatched:
  assumes "list_all (\<lambda>entry. \<not> includes_str v (fst entry)) replacements"
  shows "stringMapHref replacements v = v"
  using foldl_replaceEntry_unmatched [OF assms]
  by (simp add: stringMapHref_def applyReplacements_def Let_def)

lemma stringMapHref_Nil: "stringMapHref [] v = v"
  by (simp add: stringMapHref_def)

section \<open>\<^verbatim>\<open>path.join\<close> returns a normalised path\<close>




section \<open>Facts about \<^verbatim>\<open>toRelative\<close>\<close>

lemma commonLoop_shift:
  "i \<le> length b \<Longrightarrow> i \<le> length t \<Longrightarrow> take i b = take i t \<Longrightarrow>
   commonLoop b t i = i + length (longest_common_prefix (drop i b) (drop i t))"
proof (induction b t i rule: commonLoop.induct)
  case (1 b t i)
  show ?case
  proof (cases "i < length b \<and> i < length t \<and> b ! i = t ! i")
    case True
    then have step: "commonLoop b t i = commonLoop b t (i + 1)"
      by (subst commonLoop.simps) simp
    from True "1.prems" have "take (i + 1) b = take (i + 1) t"
      by (simp add: take_Suc_conv_app_nth)
    with True "1.IH" have "commonLoop b t (i + 1) =
        i + 1 + length (longest_common_prefix (drop (i + 1) b) (drop (i + 1) t))"
      by simp
    moreover from True have "drop i b = b ! i # drop (i + 1) b" "drop i t = b ! i # drop (i + 1) t"
      using Cons_nth_drop_Suc [of i b] Cons_nth_drop_Suc [of i t] by simp_all
    ultimately show ?thesis using step by simp
  next
    case False
    then have stop: "commonLoop b t i = i"
      by (subst commonLoop.simps) auto
    have "longest_common_prefix (drop i b) (drop i t) = []"
    proof (cases "i < length b \<and> i < length t")
      case True
      with False have ne: "b ! i \<noteq> t ! i" by simp
      from True have "drop i b = b ! i # drop (i + 1) b" "drop i t = t ! i # drop (i + 1) t"
        using Cons_nth_drop_Suc [of i b] Cons_nth_drop_Suc [of i t] by simp_all
      with ne show ?thesis by simp
    next
      case False
      then have "drop i b = [] \<or> drop i t = []" by auto
      then show ?thesis by auto
    qed
    with stop show ?thesis by simp
  qed
qed

lemma commonLoop_lcp: "commonLoop b t 0 = length (longest_common_prefix b t)"
  using commonLoop_shift [of 0 b t] by simp

lemma longest_common_prefix_same: "longest_common_prefix xs xs = xs"
  by (induction xs) auto

lemma map_const_replicate: "map (\<lambda>_. c) xs = replicate (length xs) c"
  by (induction xs) auto

lemma relativePath_unfold:
  "relativePath base target =
     (let k = length (longest_common_prefix base target);
          rel = join ''/'' (replicate (length base - k) ''..'' @ drop k target)
      in if rel = [] then ''.'' else rel)"
  by (simp add: relativePath_def commonLoop_lcp map_const_replicate Let_def)

lemma relativePath_eq_spec:
  assumes "\<forall>s \<in> set target. s \<noteq> []"
  shows "relativePath base target = relativePath_spec base target"
proof -
  let ?k = "length (longest_common_prefix base target)"
  let ?segs = "replicate (length base - ?k) ''..'' @ drop ?k target"
  have "\<forall>s \<in> set ?segs. s \<noteq> []"
    using assms by (auto dest: in_set_dropD)
  then have "join ''/'' ?segs = [] \<longleftrightarrow> ?segs = []"
    by (rule join_eq_Nil_iff)
  then show ?thesis
    unfolding relativePath_unfold relativePath_spec_def Let_def by auto
qed

lemma relativePath_no_leading_slash:
  assumes "\<forall>s \<in> set target. s \<noteq> [] \<and> hd s \<noteq> CHR ''/''"
  shows "relativePath base target \<noteq> [] \<and> hd (relativePath base target) \<noteq> CHR ''/''"
proof -
  let ?k = "length (longest_common_prefix base target)"
  let ?segs = "replicate (length base - ?k) ''..'' @ drop ?k target"
  have ok: "\<forall>s \<in> set ?segs. s \<noteq> [] \<and> hd s \<noteq> CHR ''/''"
    using assms by (auto dest: in_set_dropD)
  show ?thesis
  proof (cases ?segs)
    case Nil
    then have "join ''/'' ?segs = []" by simp
    then show ?thesis unfolding relativePath_unfold Let_def by simp
  next
    case (Cons x xs)
    with ok have x: "x \<noteq> [] \<and> hd x \<noteq> CHR ''/''"
      by (metis list.set_intros(1))
    from x have "join ''/'' (x # xs) \<noteq> [] \<and> hd (join ''/'' (x # xs)) = hd x"
      by (simp add: join_Cons_hd)
    with x Cons show ?thesis unfolding relativePath_unfold Let_def by simp
  qed
qed

section \<open>PathResolver: the relative path of a target\<close>

text \<open>
  Claim C6. For segment sequences (non-empty segments without \<^verbatim>\<open>/\<close>, as
  \<^verbatim>\<open>splitSegments\<close> produces them) \<^verbatim>\<open>toRelative\<close> returns
  \<open>len(base) - k\<close> segments \<^verbatim>\<open>..\<close>, \<open>k\<close> the length of the longest common prefix,
  followed by \<open>target[k:]\<close>, joined with \<^verbatim>\<open>/\<close>; it returns \<^verbatim>\<open>.\<close> when both
  sequences are fully consumed; the result never begins with \<^verbatim>\<open>/\<close>; on a path
  string the function is this algorithm on the path's segments; and the three examples
  of the specification evaluate as given.
\<close>

theorem toRelative_longest_common_prefix:
  "((\<forall>s \<in> set target. s \<noteq> [] \<and> CHR ''/'' \<notin> set s) \<longrightarrow>
      relativePath base target = relativePath_spec base target
      \<and> relativePath base target \<noteq> []
      \<and> hd (relativePath base target) \<noteq> CHR ''/'')
   \<and> relativePath xs xs = ''.''
   \<and> toRelative (splitSegments dir) targetPath =
        relativePath_spec (splitSegments dir) (splitSegments targetPath)
   \<and> toRelative (splitSegments dir) targetPath \<noteq> []
   \<and> hd (toRelative (splitSegments dir) targetPath) \<noteq> CHR ''/''
   \<and> relativePath [''a'', ''b''] [''a'', ''b''] = ''.''
   \<and> relativePath [''a'', ''b''] [''a'', ''c''] = ''../c''
   \<and> relativePath [] [''x'', ''y''] = ''x/y''"
proof -
  have general: "(\<forall>s \<in> set target. s \<noteq> [] \<and> CHR ''/'' \<notin> set s) \<longrightarrow>
      relativePath base target = relativePath_spec base target
      \<and> relativePath base target \<noteq> []
      \<and> hd (relativePath base target) \<noteq> CHR ''/''"
  proof
    assume a: "\<forall>s \<in> set target. s \<noteq> [] \<and> CHR ''/'' \<notin> set s"
    then have "\<forall>s \<in> set target. s \<noteq> [] \<and> hd s \<noteq> CHR ''/''"
      by (metis hd_in_set)
    with a show "relativePath base target = relativePath_spec base target
      \<and> relativePath base target \<noteq> []
      \<and> hd (relativePath base target) \<noteq> CHR ''/''"
      using relativePath_eq_spec [of target base] relativePath_no_leading_slash [of target base]
      by blast
  qed
  have same: "relativePath xs xs = ''.''"
    by (simp add: relativePath_unfold longest_common_prefix_same)
  have segs: "\<forall>s \<in> set (splitSegments targetPath). s \<noteq> [] \<and> hd s \<noteq> CHR ''/''"
    by (metis hd_in_set splitSegments_nonempty splitSegments_no_slash)
  have str1: "toRelative (splitSegments dir) targetPath =
        relativePath_spec (splitSegments dir) (splitSegments targetPath)"
    unfolding toRelative_def using segs by (intro relativePath_eq_spec) blast
  have str2: "toRelative (splitSegments dir) targetPath \<noteq> []
      \<and> hd (toRelative (splitSegments dir) targetPath) \<noteq> CHR ''/''"
    unfolding toRelative_def using segs by (intro relativePath_no_leading_slash)
  have ex1: "relativePath [''a'', ''b''] [''a'', ''b''] = ''.''"
    by (simp add: relativePath_unfold)
  have ex2: "relativePath [''a'', ''b''] [''a'', ''c''] = ''../c''"
    by (simp add: relativePath_unfold)
  have ex3: "relativePath [] [''x'', ''y''] = ''x/y''"
    by (simp add: relativePath_unfold)
  from general same str1 str2 ex1 ex2 ex3 show ?thesis by blast
qed

theorem toRelative_longest_common_prefix_witness:
  "list_all (\<lambda>s. s \<noteq> [] \<and> CHR ''/'' \<notin> set s) [''a'', ''c'', ''d'']
   \<and> relativePath [''a'', ''b'', ''e''] [''a'', ''c'', ''d''] = ''../../c/d''
   \<and> relativePath_spec [''a'', ''b'', ''e''] [''a'', ''c'', ''d''] = ''../../c/d''
   \<and> toRelative (splitSegments ''/course_builder/2223/MATH1010/'')
        ''/course_builder/2223/MATH2020/notes.pdf'' = ''../MATH2020/notes.pdf''"
proof -
  have h: "\<forall>s \<in> set [''a'', ''c'', ''d'']. s \<noteq> [] \<and> CHR ''/'' \<notin> set s"
    by simp
  have v: "relativePath_spec [''a'', ''b'', ''e''] [''a'', ''c'', ''d''] = ''../../c/d''"
    by (simp add: relativePath_spec_def)
  have w: "relativePath_spec (splitSegments ''/course_builder/2223/MATH1010/'')
        (splitSegments ''/course_builder/2223/MATH2020/notes.pdf'') = ''../MATH2020/notes.pdf''"
    by (simp add: relativePath_spec_def splitSegments_def stripSlashes_def split_chr_def)
  from toRelative_longest_common_prefix
    [of "[''a'', ''c'', ''d'']" "[''a'', ''b'', ''e'']" "[]"
        "''/course_builder/2223/MATH1010/''" "''/course_builder/2223/MATH2020/notes.pdf''"]
  show ?thesis using h v w by simp
qed

section \<open>Course selection: range and order of the result\<close>

lemma set_add_inv: "sel_inv mx sel \<Longrightarrow> 0 \<le> x \<Longrightarrow> x \<le> mx - 1 \<Longrightarrow> sel_inv mx (set_add x sel)"
  by (auto simp: sel_inv_def set_add_def)

lemma foldl_set_add_inv:
  "sel_inv mx sel \<Longrightarrow> \<forall>i \<in> set is. 1 \<le> i \<and> i \<le> mx \<Longrightarrow>
   sel_inv mx (foldl (\<lambda>sel i. set_add (i - 1) sel) sel is)"
proof (induction "is" arbitrary: sel)
  case Nil
  then show ?case by simp
next
  case (Cons i "is")
  from Cons.prems have "sel_inv mx (set_add (i - 1) sel)"
    by (intro set_add_inv) auto
  with Cons show ?case by simp
qed

lemma selectChunk_inv:
  assumes "sel_inv mx sel" and "selectChunk other mx chunk sel = Inr sel'"
  shows "sel_inv mx sel'"
proof (cases "matchRange chunk")
  case None
  with assms show ?thesis
    by (auto simp: selectChunk_def split: option.splits if_splits intro!: set_add_inv)
next
  case (Some g)
  obtain g1 g2 where g: "g = (g1, g2)" by (cases g)
  from assms(2) Some g obtain s e where
    se: "Number_isInteger other g1 = Some s" "Number_isInteger other g2 = Some e"
    by (auto simp: selectChunk_def split: option.splits)
  let ?start = "if s > e then e else s" and ?stop = "if s > e then s else e"
  from assms(2) Some g se have ok: "\<not> (?start < 1 \<or> ?stop > mx)"
    and res: "sel' = foldl (\<lambda>sel i. set_add (i - 1) sel) sel [?start..?stop]"
    by (auto simp: selectChunk_def Let_def split: if_splits)
  from ok have "\<forall>i \<in> set [?start..?stop]. 1 \<le> i \<and> i \<le> mx" by auto
  with assms(1) show ?thesis unfolding res by (rule foldl_set_add_inv)
qed

lemma selectChunks_inv:
  "sel_inv mx sel \<Longrightarrow> selectChunks other mx chunks sel = Inr sel' \<Longrightarrow> sel_inv mx sel'"
proof (induction chunks arbitrary: sel)
  case Nil
  then show ?case by simp
next
  case (Cons chunk chunks)
  from Cons.prems(2) obtain mid where
    mid: "selectChunk other mx chunk sel = Inr mid" and rest: "selectChunks other mx chunks mid = Inr sel'"
    by (auto split: sum.splits)
  from Cons.prems(1) mid have "sel_inv mx mid" by (rule selectChunk_inv)
  then show ?case using rest by (rule Cons.IH)
qed

lemma parseCourseSelection_Inr:
  assumes "parseCourseSelection other input mx = Inr sel"
  shows "sorted_wrt (<) sel \<and> distinct sel \<and> list_all (\<lambda>i. 0 \<le> i \<and> i \<le> mx - 1) sel"
proof -
  from assms obtain raw where raw: "selectChunks other mx (selectionChunks input) [] = Inr raw"
    and sel: "sel = sort raw"
    by (auto simp: parseCourseSelection_def Let_def split: if_splits sum.splits)
  have "sel_inv mx []" by (simp add: sel_inv_def)
  then have "sel_inv mx raw" using raw by (rule selectChunks_inv)
  then show ?thesis unfolding sel
    by (auto simp: sel_inv_def strict_sorted_iff list_all_iff)
qed

lemmas selection_eval_defs =
  parseCourseSelection_def selectionChunks_def split_chr_def trim_def is_space_def selectChunk_def
  matchRange_def is_digit_def Number_isInteger_def dec_value_def set_add_def upto.simps

text \<open>
  Claim C10. For every input and every \<open>max \<ge> 1\<close>, \<^verbatim>\<open>parseCourseSelection\<close>
  either throws or returns a strictly increasing array without duplicates of zero-based
  indices, all within \<open>[0, max - 1]\<close>; the reversed range \<^verbatim>\<open>19-12\<close> is accepted
  and selects what \<^verbatim>\<open>12-19\<close> selects; an input with no non-empty chunk between
  its commas throws. The result holds whatever \<^verbatim>\<open>Number\<close> makes of the
  strings that are not plain digits.
\<close>

theorem parseCourseSelection_sorted_in_range:
  assumes "1 \<le> mx"
  shows "(case parseCourseSelection other input mx of
            Inl err \<Rightarrow> True
          | Inr sel \<Rightarrow> sorted_wrt (<) sel \<and> distinct sel
                        \<and> list_all (\<lambda>i. 0 \<le> i \<and> i \<le> mx - 1) sel)
         \<and> (19 \<le> mx \<longrightarrow>
                parseCourseSelection other ''19-12'' mx = Inr [11, 12, 13, 14, 15, 16, 17, 18]
                \<and> parseCourseSelection other ''12-19'' mx = Inr [11, 12, 13, 14, 15, 16, 17, 18])
         \<and> (selectionChunks input = [] \<longrightarrow>
                parseCourseSelection other input mx = Inl NoValidSelections)"
proof -
  have range: "(case parseCourseSelection other input mx of
            Inl err \<Rightarrow> True
          | Inr sel \<Rightarrow> sorted_wrt (<) sel \<and> distinct sel
                        \<and> list_all (\<lambda>i. 0 \<le> i \<and> i \<le> mx - 1) sel)"
    using parseCourseSelection_Inr [of other input mx] by (simp split: sum.splits)
  have reversed: "19 \<le> mx \<longrightarrow>
      parseCourseSelection other ''19-12'' mx = Inr [11, 12, 13, 14, 15, 16, 17, 18]
      \<and> parseCourseSelection other ''12-19'' mx = Inr [11, 12, 13, 14, 15, 16, 17, 18]"
    by (simp add: selection_eval_defs)
  have none: "selectionChunks input = [] \<longrightarrow>
      parseCourseSelection other input mx = Inl NoValidSelections"
    by (simp add: parseCourseSelection_def)
  from range reversed none show ?thesis by blast
qed

theorem parseCourseSelection_sorted_in_range_witness:
  "parseCourseSelection (\<lambda>_. None) ''3, 19-12,12 - 14,3'' 20 = Inr [2, 11, 12, 13, 14, 15, 16, 17, 18]
   \<and> sorted_wrt (<) [2, 11, 12, 13, 14, 15, 16, 17, 18 :: int]
   \<and> list_all (\<lambda>i. 0 \<le> i \<and> i \<le> 20 - 1) [2, 11, 12, 13, 14, 15, 16, 17, 18 :: int]
   \<and> parseCourseSelection (\<lambda>_. None) ''19-12'' 20 = Inr [11, 12, 13, 14, 15, 16, 17, 18]
   \<and> selectionChunks '' , ,'' = []
   \<and> parseCourseSelection (\<lambda>_. None) '' , ,'' 20 = Inl NoValidSelections
   \<and> parseCourseSelection (\<lambda>_. None) ''0'' 20 = Inl (InvalidSelection ''0'' 20)
   \<and> parseCourseSelection (\<lambda>_. None) ''5-21'' 20 = Inl (RangeOutOfBounds ''5-21'' 20)"
proof -
  have v: "parseCourseSelection (\<lambda>_. None) ''3, 19-12,12 - 14,3'' 20
             = Inr [2, 11, 12, 13, 14, 15, 16, 17, 18]"
    by (simp add: selection_eval_defs)
  have e: "selectionChunks '' , ,'' = []"
    by (simp add: selection_eval_defs)
  have o: "parseCourseSelection (\<lambda>_. None) ''0'' 20 = Inl (InvalidSelection ''0'' 20)"
    "parseCourseSelection (\<lambda>_. None) ''5-21'' 20 = Inl (RangeOutOfBounds ''5-21'' 20)"
    by (simp_all add: selection_eval_defs)
  have m: "(1::int) \<le> 20" by simp
  from parseCourseSelection_sorted_in_range [OF m, of "\<lambda>_. None" "''3, 19-12,12 - 14,3''"]
    parseCourseSelection_sorted_in_range [OF m, of "\<lambda>_. None" "'' , ,''"]
  show ?thesis using v e o by simp
qed
section \<open>PageExtractor: the bound of the retry loop\<close>

lemma destroyed_signature: "destroyed ''Execution context was destroyed''"
  by code_simp

lemma not_destroyed_timeout: "\<not> destroyed ''Navigation timeout''"
  by code_simp

lemma evaluateAttempts_Resolved:
  "attempt < retries \<Longrightarrow> evaluate attempt = Resolved v \<Longrightarrow>
   evaluateAttempts evaluate retries attempt logged = (Inr v, attempt + 1, logged)"
  by (subst evaluateAttempts.simps) simp

lemma evaluateAttempts_fatal:
  "attempt < retries \<Longrightarrow> evaluate attempt = Rejected m \<Longrightarrow> \<not> destroyed m \<Longrightarrow>
   evaluateAttempts evaluate retries attempt logged = (Inl m, attempt + 1, logged)"
  by (subst evaluateAttempts.simps) simp

lemma evaluateAttempts_last:
  "attempt < retries \<Longrightarrow> evaluate attempt = Rejected m \<Longrightarrow> attempt = retries - 1 \<Longrightarrow>
   evaluateAttempts evaluate retries attempt logged = (Inl m, attempt + 1, logged)"
  by (subst evaluateAttempts.simps) simp

lemma evaluateAttempts_retry:
  "attempt < retries \<Longrightarrow> evaluate attempt = Rejected m \<Longrightarrow> destroyed m \<Longrightarrow>
   attempt \<noteq> retries - 1 \<Longrightarrow>
   evaluateAttempts evaluate retries attempt logged =
     evaluateAttempts evaluate retries (attempt + 1) (logged @ [LogRetrying])"
  by (subst evaluateAttempts.simps) simp

text \<open>The loop never calls \<^verbatim>\<open>page.evaluate\<close> more often than \<^verbatim>\<open>retries\<close>.\<close>

lemma evaluateAttempts_calls:
  "attempt \<le> retries \<Longrightarrow> fst (snd (evaluateAttempts evaluate retries attempt logged)) \<le> retries"
proof (induction evaluate retries attempt logged rule: evaluateAttempts.induct)
  case (1 evaluate retries attempt logged)
  show ?case
  proof (cases "attempt < retries")
    case False
    with "1.prems" show ?thesis by (subst evaluateAttempts.simps) simp
  next
    case True
    show ?thesis
    proof (cases "evaluate attempt")
      case (Resolved v)
      with True show ?thesis by (simp add: evaluateAttempts_Resolved)
    next
      case (Rejected m)
      show ?thesis
      proof (cases "\<not> destroyed m \<or> attempt = retries - 1")
        case stop: True
        with True Rejected show ?thesis
          by (subst evaluateAttempts.simps) auto
      next
        case go: False
        with True Rejected "1.IH" [of m] have
          "fst (snd (evaluateAttempts evaluate retries (attempt + 1) (logged @ [LogRetrying]))) \<le> retries"
          by simp
        with True Rejected go show ?thesis
          by (simp add: evaluateAttempts_retry)
      qed
    qed
  qed
qed

text \<open>
  Claim C5, as the specification states it: a transient failure is retried, two of them
  followed by a success give the success, and only a fourth consecutive transient
  failure marks the unit failed. The statement fails at three transient failures: the
  third one is rethrown although a fourth attempt would have succeeded.
\<close>

theorem evaluateWithRetry_fourth_attempt_counterexample:
  "evaluateWithRetry
     (\<lambda>k. if k < 3 then Rejected ''Execution context was destroyed'' else Resolved ''page'')
   = (Inl ''Execution context was destroyed'', 3, [LogRetrying, LogRetrying])"
  by (simp add: evaluateWithRetry_def evaluateAttempts.simps destroyed_signature)

text \<open>
  Claim C5, amended. \<^verbatim>\<open>evaluateWithRetry\<close> calls \<^verbatim>\<open>page.evaluate\<close> at most
  three times. Two transient failures followed by a success return the success, after
  three calls. A third consecutive transient failure is rethrown after three calls,
  whatever a fourth call would have given. An error without the transient signature is
  rethrown at once, with no further call.
\<close>

theorem evaluateWithRetry_three_attempts:
  "fst (snd (evaluateWithRetry evaluate)) \<le> 3
   \<and> (evaluate 0 = Rejected m0 \<and> destroyed m0 \<and> evaluate 1 = Rejected m1 \<and> destroyed m1 \<longrightarrow>
        (evaluate 2 = Resolved v \<longrightarrow>
           evaluateWithRetry evaluate = (Inr v, 3, [LogRetrying, LogRetrying]))
        \<and> (evaluate 2 = Rejected m2 \<longrightarrow>
           evaluateWithRetry evaluate = (Inl m2, 3, [LogRetrying, LogRetrying])))
   \<and> (evaluate 0 = Rejected m \<and> \<not> destroyed m \<longrightarrow>
        evaluateWithRetry evaluate = (Inl m, 1, []))
   \<and> (evaluate 0 = Rejected m0 \<and> destroyed m0 \<and> evaluate 1 = Rejected m \<and> \<not> destroyed m \<longrightarrow>
        evaluateWithRetry evaluate = (Inl m, 2, [LogRetrying]))
   \<and> (evaluate 0 = Resolved v \<longrightarrow> evaluateWithRetry evaluate = (Inr v, 1, []))
   \<and> (evaluate 0 = Rejected m0 \<and> destroyed m0 \<and> evaluate 1 = Resolved v \<longrightarrow>
        evaluateWithRetry evaluate = (Inr v, 2, [LogRetrying]))"
proof -
  have calls: "fst (snd (evaluateWithRetry evaluate)) \<le> 3"
    unfolding evaluateWithRetry_def by (rule evaluateAttempts_calls) simp
  have two: "evaluateWithRetry evaluate = evaluateAttempts evaluate 3 2 [LogRetrying, LogRetrying]"
    if "evaluate 0 = Rejected m0" "destroyed m0" "evaluate 1 = Rejected m1" "destroyed m1"
  proof -
    have "evaluateAttempts evaluate 3 0 [] = evaluateAttempts evaluate 3 (0 + 1) ([] @ [LogRetrying])"
      using that by (intro evaluateAttempts_retry [of 0 3 evaluate m0]) simp_all
    also have "\<dots> = evaluateAttempts evaluate 3 (0 + 1 + 1) (([] @ [LogRetrying]) @ [LogRetrying])"
      using that by (intro evaluateAttempts_retry [of "0 + 1" 3 evaluate m1]) simp_all
    finally show ?thesis
      unfolding evaluateWithRetry_def by (simp add: numeral_2_eq_2)
  qed
  have third: "evaluate 0 = Rejected m0 \<and> destroyed m0 \<and> evaluate 1 = Rejected m1 \<and> destroyed m1 \<longrightarrow>
        (evaluate 2 = Resolved v \<longrightarrow>
           evaluateWithRetry evaluate = (Inr v, 3, [LogRetrying, LogRetrying]))
        \<and> (evaluate 2 = Rejected m2 \<longrightarrow>
           evaluateWithRetry evaluate = (Inl m2, 3, [LogRetrying, LogRetrying]))"
    using two by (auto simp: evaluateAttempts_Resolved evaluateAttempts_last)
  have fatal0: "evaluate 0 = Rejected m \<and> \<not> destroyed m \<longrightarrow>
        evaluateWithRetry evaluate = (Inl m, 1, [])"
    unfolding evaluateWithRetry_def by (auto simp: evaluateAttempts_fatal)
  have fatal1: "evaluate 0 = Rejected m0 \<and> destroyed m0 \<and> evaluate 1 = Rejected m \<and> \<not> destroyed m \<longrightarrow>
        evaluateWithRetry evaluate = (Inl m, 2, [LogRetrying])"
  proof
    assume a: "evaluate 0 = Rejected m0 \<and> destroyed m0 \<and> evaluate 1 = Rejected m \<and> \<not> destroyed m"
    then have "evaluateAttempts evaluate 3 0 [] = evaluateAttempts evaluate 3 (0 + 1) ([] @ [LogRetrying])"
      by (intro evaluateAttempts_retry [of 0 3 evaluate m0]) simp_all
    also have "\<dots> = (Inl m, 0 + 1 + 1, [] @ [LogRetrying])"
      using a by (intro evaluateAttempts_fatal) simp_all
    finally show "evaluateWithRetry evaluate = (Inl m, 2, [LogRetrying])"
      unfolding evaluateWithRetry_def by simp
  qed
  have ok0: "evaluate 0 = Resolved v \<longrightarrow> evaluateWithRetry evaluate = (Inr v, 1, [])"
    unfolding evaluateWithRetry_def by (auto simp: evaluateAttempts_Resolved)
  have ok1: "evaluate 0 = Rejected m0 \<and> destroyed m0 \<and> evaluate 1 = Resolved v \<longrightarrow>
        evaluateWithRetry evaluate = (Inr v, 2, [LogRetrying])"
  proof
    assume a: "evaluate 0 = Rejected m0 \<and> destroyed m0 \<and> evaluate 1 = Resolved v"
    then have "evaluateAttempts evaluate 3 0 [] = evaluateAttempts evaluate 3 (0 + 1) ([] @ [LogRetrying])"
      by (intro evaluateAttempts_retry [of 0 3 evaluate m0]) simp_all
    also have "\<dots> = (Inr v, 0 + 1 + 1, [] @ [LogRetrying])"
      using a by (intro evaluateAttempts_Resolved) simp_all
    finally show "evaluateWithRetry evaluate = (Inr v, 2, [LogRetrying])"
      unfolding evaluateWithRetry_def by simp
  qed
  from calls third fatal0 fatal1 ok0 ok1 show ?thesis by blast
qed

theorem evaluateWithRetry_three_attempts_witness:
  "evaluateWithRetry
     (\<lambda>k. if k < 2 then Rejected ''Execution context was destroyed'' else Resolved ''page'')
     = (Inr ''page'', 3, [LogRetrying, LogRetrying])
   \<and> evaluateWithRetry (\<lambda>k. Rejected ''Execution context was destroyed'' :: string outcome)
     = (Inl ''Execution context was destroyed'', 3, [LogRetrying, LogRetrying])
   \<and> evaluateWithRetry
     (\<lambda>k. if k < 1 then Rejected ''Execution context was destroyed''
          else (Rejected ''Navigation timeout'' :: string outcome))
     = (Inl ''Navigation timeout'', 2, [LogRetrying])
   \<and> evaluateWithRetry (\<lambda>k. Rejected ''Navigation timeout'' :: string outcome)
     = (Inl ''Navigation timeout'', 1, [])"
proof -
  note d = destroyed_signature and n = not_destroyed_timeout
  let ?t = "''Execution context was destroyed''" and ?f = "''Navigation timeout''"
  from evaluateWithRetry_three_attempts
    [of "\<lambda>k. if k < 2 then Rejected ?t else Resolved ''page''" ?t ?t "''page''" ?t ?f]
  have a: "evaluateWithRetry (\<lambda>k. if k < 2 then Rejected ?t else Resolved ''page'')
     = (Inr ''page'', 3, [LogRetrying, LogRetrying])"
    using d by simp
  from evaluateWithRetry_three_attempts [of "\<lambda>k. Rejected ?t" ?t ?t "''page''" ?t ?f]
  have b: "evaluateWithRetry (\<lambda>k. Rejected ?t :: string outcome)
     = (Inl ?t, 3, [LogRetrying, LogRetrying])"
    using d by simp
  from evaluateWithRetry_three_attempts
    [of "\<lambda>k. if k < 1 then Rejected ?t else Rejected ?f" ?t ?t "''page''" ?t ?f]
  have c: "evaluateWithRetry (\<lambda>k. if k < 1 then Rejected ?t else (Rejected ?f :: string outcome))
     = (Inl ?f, 2, [LogRetrying])"
    using d n by simp
  from evaluateWithRetry_three_attempts [of "\<lambda>k. Rejected ?f" ?t ?t "''page''" ?t ?f]
  have e: "evaluateWithRetry (\<lambda>k. Rejected ?f :: string outcome) = (Inl ?f, 1, [])"
    using n by simp
  from a b c e show ?thesis by simp
qed

section \<open>The main loop: a course whose extraction fails\<close>

lemma courseLoop_append:
  "courseLoop root e reporting (xs @ ys) w =
     (case courseLoop root e reporting xs w of
        (Some err, w1) \<Rightarrow> (Some err, w1)
      | (None, w1) \<Rightarrow> courseLoop root e reporting ys w1)"
proof (induction xs arbitrary: w)
  case Nil
  then show ?case by simp
next
  case (Cons c xs)
  obtain r w1 where p: "processCourse root e reporting c w = (r, w1)"
    by (cases "processCourse root e reporting c w")
  show ?case
  proof (cases r)
    case None
    with p Cons.IH show ?thesis by simp
  next
    case (Some err)
    with p show ?thesis by simp
  qed
qed

lemma processCourse_extraction_fails:
  assumes "page_goto e (course_href c) = None"
    and "evaluateWithRetry (page_evaluate e (course_href c)) = (Inl m, calls, logged)"
  shows "processCourse root e reporting c w =
           (Some (EvalError m), w\<lparr>console := console w @ [LogNavigating (label c)] @ logged\<rparr>)"
  using assms by (simp add: processCourse_def say_def)

text \<open>
  Claim C3, as the specification states it: a permanent extraction failure is fatal for
  its course only, and the main loop goes on with the next selected course. It fails
  for two courses when the extraction of the first one fails, with an error that is not
  transient or with three transient ones: the run ends with exit code 1, and the second
  course is never opened.
\<close>

theorem extraction_failure_next_course_counterexample:
  "run [''dl'']
      \<lparr>page_goto = (\<lambda>h. None),
       page_evaluate = (\<lambda>h k. if h = ''https://www.math.cuhk.edu.hk/course_builder/2223/MATH1010/''
                              then Rejected ''boom'' else Resolved ([], ''<html>'')),
       axios_get = (\<lambda>k u. Rejected ''offline'')\<rparr>
      False ''_2223''
      [\<lparr>label = ''MATH1010'', course_href = ''https://www.math.cuhk.edu.hk/course_builder/2223/MATH1010/''\<rparr>,
       \<lparr>label = ''MATH1020'', course_href = ''https://www.math.cuhk.edu.hk/course_builder/2223/MATH1020/''\<rparr>]
      empty_world
    = (1, empty_world\<lparr>console := [LogNavigating ''MATH1010'', LogFatal ''boom'']\<rparr>)
   \<and> run [''dl'']
      \<lparr>page_goto = (\<lambda>h. None),
       page_evaluate = (\<lambda>h k. if h = ''https://www.math.cuhk.edu.hk/course_builder/2223/MATH1010/''
                              then Rejected ''Execution context was destroyed''
                              else Resolved ([], ''<html>'')),
       axios_get = (\<lambda>k u. Rejected ''offline'')\<rparr>
      False ''_2223''
      [\<lparr>label = ''MATH1010'', course_href = ''https://www.math.cuhk.edu.hk/course_builder/2223/MATH1010/''\<rparr>,
       \<lparr>label = ''MATH1020'', course_href = ''https://www.math.cuhk.edu.hk/course_builder/2223/MATH1020/''\<rparr>]
      empty_world
    = (1, empty_world\<lparr>console := [LogNavigating ''MATH1010'', LogRetrying, LogRetrying,
                                    LogFatal ''Execution context was destroyed'']\<rparr>)"
proof -
  have boom: "\<not> destroyed ''boom''" by code_simp
  have a: "evaluateWithRetry (\<lambda>k. Rejected ''boom'' :: (string list \<times> string) outcome)
             = (Inl ''boom'', 1, [])"
    by (simp add: evaluateWithRetry_def evaluateAttempts.simps boom)
  have b: "evaluateWithRetry
             (\<lambda>k. Rejected ''Execution context was destroyed'' :: (string list \<times> string) outcome)
             = (Inl ''Execution context was destroyed'', 3, [LogRetrying, LogRetrying])"
    by (simp add: evaluateWithRetry_def evaluateAttempts.simps destroyed_signature)
  show ?thesis
    by (simp add: run_def processCourse_def say_def empty_world_def a b)
qed

text \<open>
  Claim C3, amended. A permanent extraction failure for one course
  (\<^verbatim>\<open>evaluateWithRetry\<close> throwing, after its retries or at an error that is not
  transient) is not caught in the main loop: when the courses before it were processed
  without an error, the error reaches the handler of the main function, which logs it
  and ends the run with exit code 1; the courses selected after it are not processed,
  whatever they are.
\<close>

theorem extraction_failure_aborts_run:
  assumes "courseLoop root e reporting before w = (None, wb)"
    and "page_goto e (course_href c) = None"
    and "evaluateWithRetry (page_evaluate e (course_href c)) = (Inl m, calls, logged)"
  shows "run root e reporting year (before @ c # after) w =
           (1, wb\<lparr>console := console wb @ [LogNavigating (label c)] @ logged @ [LogFatal m]\<rparr>)"
proof -
  have "processCourse root e reporting c wb =
          (Some (EvalError m), wb\<lparr>console := console wb @ [LogNavigating (label c)] @ logged\<rparr>)"
    using assms(2,3) by (rule processCourse_extraction_fails)
  then have "courseLoop root e reporting (before @ c # after) w =
          (Some (EvalError m), wb\<lparr>console := console wb @ [LogNavigating (label c)] @ logged\<rparr>)"
    using assms(1) by (simp add: courseLoop_append)
  then show ?thesis
    by (simp add: run_def say_def)
qed

theorem extraction_failure_aborts_run_witness:
  "run [''dl'']
      \<lparr>page_goto = (\<lambda>h. None),
       page_evaluate = (\<lambda>h k. if h = ''https://www.math.cuhk.edu.hk/course_builder/2223/MATH1010/''
                              then Rejected ''Execution context was destroyed''
                              else Resolved ([], ''<html>'')),
       axios_get = (\<lambda>k u. Rejected ''offline'')\<rparr>
      True ''_2223''
      ([] @ \<lparr>label = ''MATH1010'', course_href = ''https://www.math.cuhk.edu.hk/course_builder/2223/MATH1010/''\<rparr>
        # [\<lparr>label = ''MATH1020'', course_href = ''https://www.math.cuhk.edu.hk/course_builder/2223/MATH1020/''\<rparr>])
      empty_world
    = (1, empty_world\<lparr>console := console empty_world @ [LogNavigating ''MATH1010'']
            @ [LogRetrying, LogRetrying] @ [LogFatal ''Execution context was destroyed'']\<rparr>)"
proof -
  let ?h = "''https://www.math.cuhk.edu.hk/course_builder/2223/MATH1010/''"
  let ?e = "\<lparr>page_goto = (\<lambda>h. None),
       page_evaluate = (\<lambda>h k. if h = ?h then Rejected ''Execution context was destroyed''
                              else Resolved ([], ''<html>'')),
       axios_get = (\<lambda>k u. Rejected ''offline'')\<rparr>"
  let ?c = "\<lparr>label = ''MATH1010'', course_href = ?h\<rparr>"
  have l: "courseLoop [''dl''] ?e True [] empty_world = (None, empty_world)"
    by simp
  have g: "page_goto ?e (course_href ?c) = None"
    by simp
  have v: "evaluateWithRetry (page_evaluate ?e (course_href ?c))
             = (Inl ''Execution context was destroyed'', 3, [LogRetrying, LogRetrying])"
    by (simp add: evaluateWithRetry_def evaluateAttempts.simps destroyed_signature)
  from extraction_failure_aborts_run [OF l g v, of "''_2223''"]
  show ?thesis by simp
qed

section \<open>FetchPipeline: files that are already there\<close>

lemma fs_ok_empty: "fs_ok Map.empty"
  by (simp add: fs_ok_def)

lemma fs_ok_take:
  "fs_ok fsys \<Longrightarrow> node_at fsys p \<noteq> None \<Longrightarrow> node_at fsys (take n p) = Some Dir \<or> take n p = p"
proof (induction "length p - n" arbitrary: n)
  case 0
  then show ?case by simp
next
  case (Suc k)
  then have n: "n < length p" by simp
  from Suc.hyps(1) [of "Suc n"] Suc.hyps(2) Suc.prems
  have "node_at fsys (take (Suc n) p) = Some Dir \<or> take (Suc n) p = p" by simp
  then have ex: "node_at fsys (take (Suc n) p) \<noteq> None"
    using Suc.prems(2) by auto
  have ne: "take (Suc n) p \<noteq> []" using n by (cases p) auto
  with ex have "fsys (take (Suc n) p) \<noteq> None" by (simp add: node_at_def)
  with Suc.prems(1) have "node_at fsys (butlast (take (Suc n) p)) = Some Dir"
    by (simp add: fs_ok_def)
  moreover have "butlast (take (Suc n) p) = take n p"
    using n by (simp add: butlast_take)
  ultimately show ?case by simp
qed

lemma fs_ok_prefix_dir:
  assumes "fs_ok fsys" "node_at fsys (pre @ s # ss) \<noteq> None"
  shows "node_at fsys (pre @ [s]) \<noteq> None \<and> (ss \<noteq> [] \<longrightarrow> node_at fsys (pre @ [s]) = Some Dir)"
proof -
  have t: "take (Suc (length pre)) (pre @ s # ss) = pre @ [s]" by simp
  from fs_ok_take [OF assms, of "Suc (length pre)"] t
  have "node_at fsys (pre @ [s]) = Some Dir \<or> pre @ [s] = pre @ s # ss" by simp
  with assms(2) show ?thesis by auto
qed

lemma mkdir_from_noop:
  "fs_ok fsys \<Longrightarrow> node_at fsys (pre @ dir) = Some Dir \<Longrightarrow> mkdir_from fsys pre dir = Some fsys"
proof (induction dir arbitrary: pre)
  case Nil
  then show ?case by simp
next
  case (Cons s ss)
  have d: "node_at fsys (pre @ [s]) = Some Dir"
  proof (cases ss)
    case Nil
    with Cons.prems show ?thesis by simp
  next
    case (Cons a list)
    with fs_ok_prefix_dir [OF Cons.prems(1), of pre s ss] Cons.prems(2) show ?thesis by simp
  qed
  then have u: "fsys(pre @ [s] \<mapsto> Dir) = fsys"
    by (auto simp: node_at_def fun_upd_idem_iff)
  from Cons.IH [of "pre @ [s]"] Cons.prems have "mkdir_from fsys (pre @ [s]) ss = Some fsys" by simp
  with d u show ?case by simp
qed

lemma mkdir_noop: "fs_ok fsys \<Longrightarrow> node_at fsys dir = Some Dir \<Longrightarrow> mkdir fsys dir = Some fsys"
  unfolding mkdir_def using mkdir_from_noop [of fsys "[]" dir] by simp

lemma exists_parent_dir:
  assumes "fs_ok fsys" "existsSync fsys p"
  shows "node_at fsys (dirname p) = Some Dir"
proof (cases "fst p = []")
  case True
  then show ?thesis by (simp add: dirname_def node_at_def)
next
  case False
  from assms(2) have "node_at fsys (fst p) \<noteq> None"
    by (auto simp: existsSync_def split: option.splits)
  with False have "fsys (fst p) \<noteq> None" by (simp add: node_at_def)
  with assms(1) show ?thesis by (simp add: fs_ok_def dirname_def)
qed

lemma downloadFile_skips:
  assumes "fs_ok (files w)" "localPathFromUrl root u = Inr p" "existsSync (files w) p"
  shows "downloadFile root nt u w = (Inr Skipped, say (LogSkipExisting (fst p)) w)"
proof -
  have "mkdir (files w) (dirname p) = Some (files w)"
    using assms(1) exists_parent_dir [OF assms(1,3)] by (rule mkdir_noop)
  with assms(2,3) show ?thesis by (simp add: downloadFile_def)
qed

lemma mkdir_from_le:
  "mkdir_from fsys pre dir = Some g \<Longrightarrow> fsys \<subseteq>\<^sub>m g"
proof (induction dir arbitrary: fsys pre)
  case Nil
  then show ?case by simp
next
  case (Cons s ss)
  from Cons.prems have nf: "\<forall>c. node_at fsys (pre @ [s]) \<noteq> Some (File c)"
    and r: "mkdir_from (fsys(pre @ [s] \<mapsto> Dir)) (pre @ [s]) ss = Some g"
    by (auto split: option.splits node.splits)
  have "fsys \<subseteq>\<^sub>m fsys(pre @ [s] \<mapsto> Dir)"
  proof (cases "fsys (pre @ [s])")
    case None
    then show ?thesis by (auto simp: map_le_def)
  next
    case (Some a)
    with nf have "a = Dir" by (cases a) (auto simp: node_at_def)
    with Some show ?thesis by (auto simp: map_le_def)
  qed
  moreover from Cons.IH [OF r] have "fsys(pre @ [s] \<mapsto> Dir) \<subseteq>\<^sub>m g" .
  ultimately show ?case by (rule map_le_trans)
qed

lemma mkdir_from_ok:
  "mkdir_from fsys pre dir = Some g \<Longrightarrow> fs_ok fsys \<Longrightarrow> node_at fsys pre = Some Dir \<Longrightarrow>
   fs_ok g \<and> node_at g (pre @ dir) = Some Dir"
proof (induction dir arbitrary: fsys pre)
  case Nil
  then show ?case by simp
next
  case (Cons s ss)
  let ?f = "fsys(pre @ [s] \<mapsto> Dir)"
  from Cons.prems(1) have r: "mkdir_from ?f (pre @ [s]) ss = Some g"
    by (auto split: option.splits node.splits)
  have ok: "fs_ok ?f"
    unfolding fs_ok_def
  proof (intro allI impI)
    fix p assume p: "?f p \<noteq> None"
    show "p \<noteq> [] \<and> node_at ?f (butlast p) = Some Dir"
    proof (cases "p = pre @ [s]")
      case True
      with Cons.prems(3) show ?thesis by (auto simp: node_at_def)
    next
      case False
      with p have "fsys p \<noteq> None" by simp
      with Cons.prems(2) have "p \<noteq> []" "node_at fsys (butlast p) = Some Dir"
        by (auto simp: fs_ok_def)
      then show ?thesis by (auto simp: node_at_def)
    qed
  qed
  have d: "node_at ?f (pre @ [s]) = Some Dir" by (simp add: node_at_def)
  from Cons.IH [OF r ok d] show ?case by simp
qed

lemma mkdir_ok: "mkdir fsys dir = Some g \<Longrightarrow> fs_ok fsys \<Longrightarrow> fs_ok g \<and> node_at g dir = Some Dir \<and> fsys \<subseteq>\<^sub>m g"
  unfolding mkdir_def using mkdir_from_ok [of fsys "[]" dir g] mkdir_from_le [of fsys "[]" dir g]
  by (simp add: node_at_def)

lemma writeFile_ok:
  assumes "writeFile fsys p c = Some g" "fs_ok fsys" "\<not> existsSync fsys p"
  shows "fs_ok g \<and> fsys \<subseteq>\<^sub>m g \<and> existsSync g p"
proof -
  from assms(1) have np: "\<not> snd p" "fst p \<noteq> []" and par: "node_at fsys (butlast (fst p)) = Some Dir"
    and g: "g = fsys(fst p \<mapsto> File c)"
    by (auto simp: writeFile_def split: if_splits)
  from assms(3) np have none: "fsys (fst p) = None"
    by (auto simp: existsSync_def node_at_def split: option.splits node.splits)
  have le: "fsys \<subseteq>\<^sub>m g" using none g by (auto simp: map_le_def)
  have ex: "existsSync g p" using np g by (simp add: existsSync_def node_at_def)
  have "fs_ok g"
    unfolding fs_ok_def
  proof (intro allI impI)
    fix q assume q: "g q \<noteq> None"
    show "q \<noteq> [] \<and> node_at g (butlast q) = Some Dir"
    proof (cases "q = fst p")
      case True
      with np par g none show ?thesis by (auto simp: node_at_def)
    next
      case False
      with q g have "fsys q \<noteq> None" by simp
      with assms(2) have q1: "q \<noteq> []" and q2: "node_at fsys (butlast q) = Some Dir"
        by (auto simp: fs_ok_def)
      from q2 none np have "butlast q \<noteq> fst p" by (auto simp: node_at_def)
      with q1 q2 g show ?thesis by (auto simp: node_at_def)
    qed
  qed
  with le ex show ?thesis by simp
qed

lemma node_at_mono: "f \<subseteq>\<^sub>m g \<Longrightarrow> node_at f q = Some n \<Longrightarrow> node_at g q = Some n"
  by (auto simp: node_at_def map_le_def dom_def split: if_splits)

lemma existsSync_mono:
  assumes "f \<subseteq>\<^sub>m g" "existsSync f p"
  shows "existsSync g p"
proof -
  from assms(2) obtain n where n: "node_at f (fst p) = Some n"
    by (auto simp: existsSync_def split: option.splits)
  with assms(1) have "node_at g (fst p) = Some n" by (rule node_at_mono)
  with n assms(2) show ?thesis by (simp add: existsSync_def)
qed


lemma present_mono: "f \<subseteq>\<^sub>m g \<Longrightarrow> present root f u \<Longrightarrow> present root g u"
  by (auto simp: present_def split: option.splits sum.splits dest: existsSync_mono)

lemma downloadFile_effect:
  assumes "fs_ok (files w)" "downloadFile root nt u w = (r, w')"
  shows "fs_ok (files w') \<and> files w \<subseteq>\<^sub>m files w'
       \<and> (fetched r \<longrightarrow> (\<exists>p. localPathFromUrl root u = Inr p \<and> existsSync (files w') p))
       \<and> (requests w' = requests w \<or> (requests w' = requests w @ [u] \<and> r \<noteq> Inr Skipped))"
proof (cases "localPathFromUrl root u")
  case (Inl err)
  with assms show ?thesis by (auto simp: downloadFile_def fetched_def)
next
  case (Inr p)
  show ?thesis
  proof (cases "mkdir (files w) (dirname p)")
    case None
    with Inr assms show ?thesis by (auto simp: downloadFile_def fetched_def)
  next
    case (Some f1)
    from mkdir_ok [OF Some assms(1)] have f1: "fs_ok f1" "files w \<subseteq>\<^sub>m f1" by simp_all
    show ?thesis
    proof (cases "existsSync f1 p")
      case True
      with Inr Some assms(2) have "r = Inr Skipped" "files w' = f1" "requests w' = requests w"
        by (auto simp: downloadFile_def say_def)
      with f1 True Inr show ?thesis by (simp add: fetched_def)
    next
      case False
      show ?thesis
      proof (cases "nt (length (requests w)) u")
        case (Rejected m)
        with Inr Some False assms(2) have "r = Inl (NetError m)" "files w' = f1"
          "requests w' = requests w @ [u]"
          by (auto simp: downloadFile_def)
        with f1 show ?thesis by (simp add: fetched_def)
      next
        case (Resolved content)
        show ?thesis
        proof (cases "writeFile f1 p content")
          case None
          with Inr Some False Resolved assms(2) have "r = Inl FsError" "files w' = f1"
            "requests w' = requests w @ [u]"
            by (auto simp: downloadFile_def)
          with f1 show ?thesis by (simp add: fetched_def)
        next
          case f2: (Some f2)
          with Inr Some False Resolved assms(2) have r: "r = Inr Downloaded" "files w' = f2"
            "requests w' = requests w @ [u]"
            by (auto simp: downloadFile_def say_def)
          from writeFile_ok [OF f2 f1(1) False] have "fs_ok f2" "f1 \<subseteq>\<^sub>m f2" "existsSync f2 p"
            by simp_all
          with f1 r Inr show ?thesis by (auto simp: fetched_def intro: map_le_trans)
        qed
      qed
    qed
  qed
qed

lemma downloadFile_present:
  assumes "fs_ok (files w)" "decodeURI u = Some d" "present root (files w) u"
  shows "downloadFile root nt d w =
           (Inr Skipped, say (LogSkipExisting (fst (projr (localPathFromUrl root d)))) w)"
proof -
  from assms(2,3) obtain p where p: "localPathFromUrl root d = Inr p" "existsSync (files w) p"
    by (auto simp: present_def split: sum.splits)
  from downloadFile_skips [OF assms(1) p] p(1) show ?thesis by simp
qed

lemma missingLogger_files [simp]:
  "files (missingLogger rep entry w) = files w" "requests (missingLogger rep entry w) = requests w"
  by (simp_all add: missingLogger_def)

lemma say_files [simp]: "files (say ev w) = files w" "requests (say ev w) = requests w"
  by (simp_all add: say_def)

lemma downloadAll_first:
  "fs_ok (files w) \<Longrightarrow> downloadAll root e rep lbl urls w = (t, rs, w') \<Longrightarrow>
   fs_ok (files w') \<and> files w \<subseteq>\<^sub>m files w'
   \<and> list_all2 (\<lambda>u r. fetched r \<longrightarrow> present root (files w') u) (take (length rs) urls) rs"
proof (induction urls arbitrary: w t rs w')
  case Nil
  then show ?case by simp
next
  case (Cons u urls)
  show ?case
  proof (cases "decodeURI u")
    case None
    with Cons.prems show ?thesis by simp
  next
    case (Some d)
    obtain r w1 where d: "downloadFile root (axios_get e) d w = (r, w1)"
      by (cases "downloadFile root (axios_get e) d w")
    let ?w1 = "(case r of
                  Inl err \<Rightarrow> missingLogger rep (''['' @ lbl @ ''] '' @ d @ '' :: '' @ error_message err)
                               (say (LogFail d (error_message err)) w1)
                | Inr x \<Rightarrow> w1)"
    obtain t2 rs2 w2 where rest: "downloadAll root e rep lbl urls ?w1 = (t2, rs2, w2)"
      by (cases "downloadAll root e rep lbl urls ?w1") auto
    from Cons.prems(2) Some d rest have res: "t = t2" "rs = r # rs2" "w' = w2"
      by (auto split: sum.splits)
    from downloadFile_effect [OF Cons.prems(1) d]
    have e1: "fs_ok (files w1)" "files w \<subseteq>\<^sub>m files w1"
      and f1: "fetched r \<longrightarrow> (\<exists>p. localPathFromUrl root d = Inr p \<and> existsSync (files w1) p)"
      by simp_all
    have fw: "files ?w1 = files w1" by (cases r) simp_all
    from Cons.IH [OF _ rest] e1 fw
    have ih: "fs_ok (files w2)" "files w1 \<subseteq>\<^sub>m files w2"
      "list_all2 (\<lambda>u r. fetched r \<longrightarrow> present root (files w2) u) (take (length rs2) urls) rs2"
      by simp_all
    have "fetched r \<longrightarrow> present root (files w2) u"
      using f1 Some ih(2) by (auto simp: present_def dest: existsSync_mono)
    with ih e1 res show ?thesis by (auto intro: map_le_trans)
  qed
qed

lemma downloadAll_length:
  "downloadAll root e rep lbl urls w = (t, rs, w') \<Longrightarrow>
   length rs = length (takeWhile (\<lambda>u. decodeURI u \<noteq> None) urls)"
proof (induction urls arbitrary: w t rs w')
  case Nil
  then show ?case by simp
next
  case (Cons u urls)
  show ?case
  proof (cases "decodeURI u")
    case None
    with Cons.prems show ?thesis by simp
  next
    case (Some d)
    with Cons show ?thesis
      by (auto split: prod.splits sum.splits)
  qed
qed

lemma filter_length_mono:
  "(\<And>x. P x \<Longrightarrow> Q x) \<Longrightarrow> length (filter P xs) \<le> length (filter Q xs)"
  by (induction xs) auto

lemma downloadAll_second:
  "fs_ok (files w) \<Longrightarrow> downloadAll root e rep lbl urls w = (t, rs, w') \<Longrightarrow>
   list_all2 (\<lambda>u r. present root (files w) u \<longrightarrow> r = Inr Skipped) (take (length rs) urls) rs
   \<and> length (requests w') \<le> length (requests w)
        + length (filter (\<lambda>u. \<not> present root (files w) u) (take (length rs) urls))
   \<and> (\<exists>more. requests w' = requests w @ more)"
proof (induction urls arbitrary: w t rs w')
  case Nil
  then show ?case by simp
next
  case (Cons u urls)
  show ?case
  proof (cases "decodeURI u")
    case None
    with Cons.prems show ?thesis by simp
  next
    case (Some d)
    obtain r w1 where d: "downloadFile root (axios_get e) d w = (r, w1)"
      by (cases "downloadFile root (axios_get e) d w")
    let ?w1 = "(case r of
                  Inl err \<Rightarrow> missingLogger rep (''['' @ lbl @ ''] '' @ d @ '' :: '' @ error_message err)
                               (say (LogFail d (error_message err)) w1)
                | Inr x \<Rightarrow> w1)"
    obtain t2 rs2 w2 where rest: "downloadAll root e rep lbl urls ?w1 = (t2, rs2, w2)"
      by (cases "downloadAll root e rep lbl urls ?w1") auto
    from Cons.prems(2) Some d rest have res: "t = t2" "rs = r # rs2" "w' = w2"
      by (auto split: sum.splits)
    from downloadFile_effect [OF Cons.prems(1) d]
    have e1: "fs_ok (files w1)" "files w \<subseteq>\<^sub>m files w1"
      and rq: "requests w1 = requests w \<or> requests w1 = requests w @ [d] \<and> r \<noteq> Inr Skipped"
      by simp_all
    have fw: "files ?w1 = files w1" "requests ?w1 = requests w1" by (cases r; simp)+
    from Cons.IH [OF _ rest] e1 fw
    have ih: "list_all2 (\<lambda>u r. present root (files w1) u \<longrightarrow> r = Inr Skipped) (take (length rs2) urls) rs2"
      "length (requests w2) \<le> length (requests w1)
        + length (filter (\<lambda>u. \<not> present root (files w1) u) (take (length rs2) urls))"
      "\<exists>more. requests w2 = requests w1 @ more"
      by simp_all
    have mono: "\<And>v. present root (files w) v \<Longrightarrow> present root (files w1) v"
      using e1(2) by (rule present_mono)
    have l2: "list_all2 (\<lambda>u r. present root (files w) u \<longrightarrow> r = Inr Skipped) (take (length rs2) urls) rs2"
      using ih(1) mono by (auto elim!: list_all2_mono)
    have fl: "length (filter (\<lambda>u. \<not> present root (files w1) u) (take (length rs2) urls))
              \<le> length (filter (\<lambda>u. \<not> present root (files w) u) (take (length rs2) urls))"
      using mono by (intro filter_length_mono) auto
    have hd: "present root (files w) u \<longrightarrow> r = Inr Skipped \<and> requests w1 = requests w"
    proof
      assume pr: "present root (files w) u"
      from downloadFile_present [OF Cons.prems(1) Some pr, of "axios_get e"] d
      show "r = Inr Skipped \<and> requests w1 = requests w" by auto
    qed
    have cnt: "length (requests w1) \<le> length (requests w) + (if present root (files w) u then 0 else 1)"
      using hd rq by auto
    from l2 hd res have A: "list_all2 (\<lambda>u r. present root (files w) u \<longrightarrow> r = Inr Skipped)
        (take (length rs) (u # urls)) rs" by simp
    from ih(2) fl cnt res have B: "length (requests w') \<le> length (requests w)
        + length (filter (\<lambda>u. \<not> present root (files w) u) (take (length rs) (u # urls)))"
      by auto
    from ih(3) rq res have C: "\<exists>more. requests w' = requests w @ more" by auto
    from A B C show ?thesis by simp
  qed
qed

lemma list_all2_filter_le:
  "list_all2 (\<lambda>x y. P x \<longrightarrow> Q y) xs ys \<Longrightarrow> length (filter P xs) \<le> length (filter Q ys)"
  by (induction xs ys rule: list_all2_induct) auto

text \<open>
  Claim C4. In a well-formed file system, when something exists at the local path of a
  URL, \<^verbatim>\<open>downloadFile\<close> returns \<open>Skipped\<close>, sends no request and leaves the files as
  they are. So a second run of the download loop over the same URL list, in a target
  directory that still holds what the first run left, skips every resource the first run
  fetched (downloaded or skipped); it sends at most one request for each resource the
  first run failed on, and none at all when the first run had no failure.
\<close>

theorem downloadFile_idempotent:
  assumes "fs_ok (files w)"
  shows "(localPathFromUrl root u = Inr p \<and> existsSync (files w) p \<longrightarrow>
            downloadFile root nt u w = (Inr Skipped, say (LogSkipExisting (fst p)) w)
            \<and> requests (snd (downloadFile root nt u w)) = requests w
            \<and> files (snd (downloadFile root nt u w)) = files w)
         \<and> (downloadAll root e rep lbl urls w = (t1, rs1, w1)
            \<and> fs_ok (files v) \<and> (\<forall>q. existsSync (files w1) q \<longrightarrow> existsSync (files v) q)
            \<and> downloadAll root e' rep' lbl' urls v = (t2, rs2, w2) \<longrightarrow>
              list_all2 (\<lambda>r1 r2. fetched r1 \<longrightarrow> r2 = Inr Skipped) rs1 rs2
              \<and> length (requests w2) \<le> length (requests v) + length (filter (\<lambda>r. \<not> fetched r) rs1)
              \<and> (list_all fetched rs1 \<longrightarrow>
                   requests w2 = requests v \<and> list_all (\<lambda>r. r = Inr Skipped) rs2))"
proof (intro conjI impI)
  assume a: "localPathFromUrl root u = Inr p \<and> existsSync (files w) p"
  then have s: "downloadFile root nt u w = (Inr Skipped, say (LogSkipExisting (fst p)) w)"
    using downloadFile_skips [OF assms, of root u p nt] by simp
  then show "downloadFile root nt u w = (Inr Skipped, say (LogSkipExisting (fst p)) w)" .
  from s show "requests (snd (downloadFile root nt u w)) = requests w" by simp
  from s show "files (snd (downloadFile root nt u w)) = files w" by simp
next
  assume a: "downloadAll root e rep lbl urls w = (t1, rs1, w1)
      \<and> fs_ok (files v) \<and> (\<forall>q. existsSync (files w1) q \<longrightarrow> existsSync (files v) q)
      \<and> downloadAll root e' rep' lbl' urls v = (t2, rs2, w2)"
  then have run1: "downloadAll root e rep lbl urls w = (t1, rs1, w1)"
    and v: "fs_ok (files v)" and keep: "\<And>q. existsSync (files w1) q \<Longrightarrow> existsSync (files v) q"
    and run2: "downloadAll root e' rep' lbl' urls v = (t2, rs2, w2)"
    by blast+
  have len: "length rs2 = length rs1"
    using downloadAll_length [OF run1] downloadAll_length [OF run2] by simp
  from downloadAll_first [OF assms run1]
  have first: "list_all2 (\<lambda>u r. fetched r \<longrightarrow> present root (files w1) u) (take (length rs1) urls) rs1"
    by simp
  have pres: "\<And>x. present root (files w1) x \<Longrightarrow> present root (files v) x"
    using keep by (auto simp: present_def split: option.splits sum.splits)
  from first pres
  have first': "list_all2 (\<lambda>u r. fetched r \<longrightarrow> present root (files v) u) (take (length rs1) urls) rs1"
    by (auto elim!: list_all2_mono)
  from downloadAll_second [OF v run2] len
  have second: "list_all2 (\<lambda>u r. present root (files v) u \<longrightarrow> r = Inr Skipped) (take (length rs1) urls) rs2"
    and count: "length (requests w2) \<le> length (requests v)
        + length (filter (\<lambda>u. \<not> present root (files v) u) (take (length rs1) urls))"
    and more: "\<exists>more. requests w2 = requests v @ more"
    by simp_all
  show skipped: "list_all2 (\<lambda>r1 r2. fetched r1 \<longrightarrow> r2 = Inr Skipped) rs1 rs2"
    using first' second len by (auto simp: list_all2_conv_all_nth)
  from first' have "list_all2 (\<lambda>u r. \<not> present root (files v) u \<longrightarrow> \<not> fetched r) (take (length rs1) urls) rs1"
    by (auto elim!: list_all2_mono)
  then have "length (filter (\<lambda>u. \<not> present root (files v) u) (take (length rs1) urls))
               \<le> length (filter (\<lambda>r. \<not> fetched r) rs1)"
    by (rule list_all2_filter_le)
  with count show bound: "length (requests w2) \<le> length (requests v) + length (filter (\<lambda>r. \<not> fetched r) rs1)"
    by simp
  {
    assume all: "list_all fetched rs1"
    then have "filter (\<lambda>r. \<not> fetched r) rs1 = []"
      by (simp add: list_all_iff filter_empty_conv)
    with bound more show "requests w2 = requests v" by auto
    from skipped all show "list_all (\<lambda>r. r = Inr Skipped) rs2"
      by (auto simp: list_all2_conv_all_nth list_all_length)
  }
qed

lemma decodeURI_example:
  "decodeURI ''https://www.math.cuhk.edu.hk/course_builder/2223/MATH1010/a.pdf''
     = Some ''https://www.math.cuhk.edu.hk/course_builder/2223/MATH1010/a.pdf''"
  by code_simp

lemma localPathFromUrl_example:
  "localPathFromUrl [''dl''] ''https://www.math.cuhk.edu.hk/course_builder/2223/MATH1010/a.pdf''
     = Inr ([''dl'', ''2223'', ''MATH1010'', ''a.pdf''], False)"
  by code_simp

lemma downloadAll_example:
  "downloadAll [''dl'']
       \<lparr>page_goto = (\<lambda>h. None), page_evaluate = (\<lambda>h k. Rejected ''unused''),
        axios_get = (\<lambda>k u. Resolved ''%PDF'')\<rparr>
       False ''MATH1010''
       [''https://www.math.cuhk.edu.hk/course_builder/2223/MATH1010/a.pdf''] empty_world
    = (None, [Inr Downloaded],
       \<lparr>files = [[''dl''] \<mapsto> Dir, [''dl'', ''2223''] \<mapsto> Dir, [''dl'', ''2223'', ''MATH1010''] \<mapsto> Dir,
                 [''dl'', ''2223'', ''MATH1010'', ''a.pdf''] \<mapsto> File ''%PDF''],
        requests = [''https://www.math.cuhk.edu.hk/course_builder/2223/MATH1010/a.pdf''],
        console = [LogDone [''dl'', ''2223'', ''MATH1010'', ''a.pdf'']],
        missingLog = [], completedCourses = 0\<rparr>)"
  by (simp add: decodeURI_example localPathFromUrl_example downloadFile_def dirname_def mkdir_def
        node_at_def existsSync_def writeFile_def say_def empty_world_def)

text \<open>
  A first run downloads one file from a network that answers; the second run, with a
  network that refuses every request, skips it and asks for nothing.
\<close>

theorem downloadFile_idempotent_witness:
  "(let u = ''https://www.math.cuhk.edu.hk/course_builder/2223/MATH1010/a.pdf'';
        online = \<lparr>page_goto = (\<lambda>h. None), page_evaluate = (\<lambda>h k. Rejected ''unused''),
                  axios_get = (\<lambda>k u. Resolved ''%PDF'')\<rparr>;
        offline = \<lparr>page_goto = (\<lambda>h. None), page_evaluate = (\<lambda>h k. Rejected ''unused''),
                   axios_get = (\<lambda>k u. Rejected ''offline'')\<rparr>;
        first = downloadAll [''dl''] online False ''MATH1010'' [u] empty_world;
        second = downloadAll [''dl''] offline False ''MATH1010'' [u] (snd (snd first))
    in fst (snd first) = [Inr Downloaded]
       \<and> fst (snd second) = [Inr Skipped]
       \<and> requests (snd (snd second)) = requests (snd (snd first)))"
proof -
  let ?u = "''https://www.math.cuhk.edu.hk/course_builder/2223/MATH1010/a.pdf''"
  let ?e = "\<lparr>page_goto = (\<lambda>h. None), page_evaluate = (\<lambda>h k. Rejected ''unused''),
        axios_get = (\<lambda>k u. Resolved ''%PDF'')\<rparr>"
  let ?e' = "\<lparr>page_goto = (\<lambda>h. None), page_evaluate = (\<lambda>h k. Rejected ''unused''),
        axios_get = (\<lambda>k u. Rejected ''offline'')\<rparr>"
  let ?w1 = "\<lparr>files = [[''dl''] \<mapsto> Dir, [''dl'', ''2223''] \<mapsto> Dir, [''dl'', ''2223'', ''MATH1010''] \<mapsto> Dir,
                 [''dl'', ''2223'', ''MATH1010'', ''a.pdf''] \<mapsto> File ''%PDF''],
        requests = [?u],
        console = [LogDone [''dl'', ''2223'', ''MATH1010'', ''a.pdf'']],
        missingLog = [], completedCourses = 0\<rparr>"
  have run1: "downloadAll [''dl''] ?e False ''MATH1010'' [?u] empty_world
                = (None, [Inr Downloaded], ?w1)"
    by (rule downloadAll_example)
  obtain t2 rs2 w2 where run2: "downloadAll [''dl''] ?e' False ''MATH1010'' [?u] ?w1 = (t2, rs2, w2)"
    by (cases "downloadAll [''dl''] ?e' False ''MATH1010'' [?u] ?w1") blast
  have ok: "fs_ok (files empty_world)"
    by (simp add: empty_world_def fs_ok_empty)
  have ok1: "fs_ok (files ?w1)"
    using downloadAll_first [OF ok run1] by blast
  have keep: "\<forall>q. existsSync (files ?w1) q \<longrightarrow> existsSync (files ?w1) q"
    by blast
  have f1: "list_all fetched [Inr Downloaded]"
    by (simp add: fetched_def)
  from downloadFile_idempotent [OF ok, of "[''dl'']" ?u "([], False)" "\<lambda>k u. Rejected ''offline''"
      ?e False "''MATH1010''" "[?u]" None "[Inr Downloaded]" ?w1 ?w1 ?e' False "''MATH1010''" t2 rs2 w2]
    run1 run2 ok1 keep f1
  have "requests w2 = requests ?w1 \<and> list_all (\<lambda>r. r = Inr Skipped) rs2"
    and "list_all2 (\<lambda>r1 r2. fetched r1 \<longrightarrow> r2 = Inr Skipped) [Inr Downloaded] rs2"
    by blast+
  then have "rs2 = [Inr Skipped]" "requests w2 = requests ?w1"
    by (auto simp: fetched_def list_all2_Cons1)
  with run2 show ?thesis
    unfolding Let_def run1 by simp
qed

section \<open>LinkClassifier: the two passes\<close>

text \<open>
  Claim C2, as the specification states it: the pass in the page and the filter before
  the fetch are the same predicate, so a URL is in the list of the page if and only if
  it passes the filter. It fails in both directions. A link to another host and a link
  under the staff prefix are in the list of the page, and the filter drops them. A link
  to a file whose name contains \<^verbatim>\<open>javascript:\<close> (the attribute
  \<^verbatim>\<open>./javascript:x.pdf\<close>, resolved by the document) is dropped in the page, and the
  filter accepts its URL.
\<close>

theorem classification_passes_counterexample:
  "downloadUrls URL_model config2526 page2526
       [Some ''https://example.com/x'', Some ''https://www.math.cuhk.edu.hk/~staff/y'']
     = [''https://example.com/x'', ''https://www.math.cuhk.edu.hk/~staff/y'']
   \<and> \<not> usable_on URL_model ''https://example.com/x''
   \<and> \<not> usable_on URL_model ''https://www.math.cuhk.edu.hk/~staff/y''
   \<and> map_option href (parseURL ''./javascript:x.pdf'' (Some page2526))
     = Some ''https://www.math.cuhk.edu.hk/course_builder/2526/MATH1010/javascript:x.pdf''
   \<and> downloadUrls URL_model config2526 page2526
       [Some ''https://www.math.cuhk.edu.hk/course_builder/2526/MATH1010/javascript:x.pdf''] = []
   \<and> usable_on URL_model
       ''https://www.math.cuhk.edu.hk/course_builder/2526/MATH1010/javascript:x.pdf''"
proof -
  have a: "downloadUrls URL_model config2526 page2526
       [Some ''https://example.com/x'', Some ''https://www.math.cuhk.edu.hk/~staff/y'']
     = [''https://example.com/x'', ''https://www.math.cuhk.edu.hk/~staff/y'']"
    by code_simp
  have b: "\<not> usable_on URL_model ''https://example.com/x''"
    by code_simp
  have c: "\<not> usable_on URL_model ''https://www.math.cuhk.edu.hk/~staff/y''"
    by code_simp
  have d: "map_option href (parseURL ''./javascript:x.pdf'' (Some page2526))
     = Some ''https://www.math.cuhk.edu.hk/course_builder/2526/MATH1010/javascript:x.pdf''"
    by code_simp
  have e: "downloadUrls URL_model config2526 page2526
       [Some ''https://www.math.cuhk.edu.hk/course_builder/2526/MATH1010/javascript:x.pdf''] = []"
    by code_simp
  have f: "usable_on URL_model
       ''https://www.math.cuhk.edu.hk/course_builder/2526/MATH1010/javascript:x.pdf''"
    by code_simp
  from a b c d e f show ?thesis by blast
qed

text \<open>
  Claim C2, amended. The two passes apply different rules, for every \<^verbatim>\<open>URL\<close> class.
  The pass in the page drops exactly the \<^verbatim>\<open>li\<close> elements without an anchor, the
  links whose \<^verbatim>\<open>href\<close> contains \<^verbatim>\<open>javascript:\<close> and the links whose
  \<^verbatim>\<open>href\<close> does not parse; it pushes the normalised URL of every other link, and
  so does not look at the staff prefix, the host or the path. The filter before the fetch
  drops exactly the URLs that start with the staff prefix, the URLs that do not parse,
  the hosts outside the allowed set and the paths outside \<^verbatim>\<open>/course_builder/\<close>.
  \<^verbatim>\<open>usableUrls\<close> is the list of the page without the URLs that the filter drops,
  in the same order: a URL is in it if and only if it is in the list of the page and
  passes the filter.
\<close>

theorem classification_passes_rules:
  "(li_url cls cfg loc None = None)
   \<and> (li_url cls cfg loc (Some a_href) = Some s \<longleftrightarrow>
        \<not> includes_str a_href ''javascript:''
        \<and> (\<exists>fixed. normalizeUrl_on cls cfg loc a_href = Some fixed \<and> s = get_href cls fixed))
   \<and> (normalizeUrl_on cls cfg loc a_href = None \<longleftrightarrow>
        new_URL cls a_href (Some (get_href cls loc)) = None)
   \<and> (usable_on cls s \<longleftrightarrow>
        \<not> startsWith s STAFF_PREFIX
        \<and> (\<exists>u. new_URL cls s None = Some u \<and> get_hostname cls u \<in> set ALLOWED_HOSTS
               \<and> startsWith (get_pathname cls u) ''/course_builder/''))
   \<and> set (usableUrls_on cls (downloadUrls cls cfg loc lis))
        = {s. (\<exists>li. li \<in> set lis \<and> li_url cls cfg loc li = Some s) \<and> usable_on cls s}
   \<and> subseq (usableUrls_on cls (downloadUrls cls cfg loc lis)) (downloadUrls cls cfg loc lis)"
proof -
  have n: "li_url cls cfg loc None = None"
    by (simp add: li_url_def)
  have s: "set (usableUrls_on cls (downloadUrls cls cfg loc lis))
        = {s. (\<exists>li. li \<in> set lis \<and> li_url cls cfg loc li = Some s) \<and> usable_on cls s}"
    by (auto simp: usableUrls_on_def set_downloadUrls)
  have q: "subseq (usableUrls_on cls (downloadUrls cls cfg loc lis)) (downloadUrls cls cfg loc lis)"
    by (simp add: usableUrls_on_def)
  from n s q li_url_Some_iff [of cls cfg loc a_href s]
    normalizeUrl_on_None_iff [of cls cfg loc a_href] usable_on_iff [of cls s]
  show ?thesis by blast
qed

theorem classification_passes_rules_witness:
  "downloadUrls URL_model config2526 page2526
      [None, Some [], Some ''javascript:void(0)'', Some ''https://www.math.cuhk.edu.hk:99999/x'',
       Some ''https://www.math.cuhk.edu.hk/course_builder/2526/MATH1010/notes.pdf'',
       Some ''https://example.com/x'', Some ''https://www.math.cuhk.edu.hk/~staff/y'',
       Some ''https://137.189.49.33/course_builder/2526/MATH1010/hw1.pdf'']
     = [''https://www.math.cuhk.edu.hk/course_builder/2526/MATH1010/'',
        ''https://www.math.cuhk.edu.hk/course_builder/2526/MATH1010/notes.pdf'',
        ''https://example.com/x'', ''https://www.math.cuhk.edu.hk/~staff/y'',
        ''https://www.math.cuhk.edu.hk/course_builder/2526/MATH1010/hw1.pdf'']
   \<and> usableUrls_on URL_model
       [''https://www.math.cuhk.edu.hk/course_builder/2526/MATH1010/'',
        ''https://www.math.cuhk.edu.hk/course_builder/2526/MATH1010/notes.pdf'',
        ''https://example.com/x'', ''https://www.math.cuhk.edu.hk/~staff/y'',
        ''https://www.math.cuhk.edu.hk/course_builder/2526/MATH1010/hw1.pdf'']
     = [''https://www.math.cuhk.edu.hk/course_builder/2526/MATH1010/'',
        ''https://www.math.cuhk.edu.hk/course_builder/2526/MATH1010/notes.pdf'',
        ''https://www.math.cuhk.edu.hk/course_builder/2526/MATH1010/hw1.pdf'']
   \<and> subseq
       [''https://www.math.cuhk.edu.hk/course_builder/2526/MATH1010/'',
        ''https://www.math.cuhk.edu.hk/course_builder/2526/MATH1010/notes.pdf'',
        ''https://www.math.cuhk.edu.hk/course_builder/2526/MATH1010/hw1.pdf'']
       [''https://www.math.cuhk.edu.hk/course_builder/2526/MATH1010/'',
        ''https://www.math.cuhk.edu.hk/course_builder/2526/MATH1010/notes.pdf'',
        ''https://example.com/x'', ''https://www.math.cuhk.edu.hk/~staff/y'',
        ''https://www.math.cuhk.edu.hk/course_builder/2526/MATH1010/hw1.pdf'']"
proof -
  let ?lis = "[None, Some [], Some ''javascript:void(0)'', Some ''https://www.math.cuhk.edu.hk:99999/x'',
       Some ''https://www.math.cuhk.edu.hk/course_builder/2526/MATH1010/notes.pdf'',
       Some ''https://example.com/x'', Some ''https://www.math.cuhk.edu.hk/~staff/y'',
       Some ''https://137.189.49.33/course_builder/2526/MATH1010/hw1.pdf'']"
  let ?urls = "[''https://www.math.cuhk.edu.hk/course_builder/2526/MATH1010/'',
        ''https://www.math.cuhk.edu.hk/course_builder/2526/MATH1010/notes.pdf'',
        ''https://example.com/x'', ''https://www.math.cuhk.edu.hk/~staff/y'',
        ''https://www.math.cuhk.edu.hk/course_builder/2526/MATH1010/hw1.pdf'']"
  have d: "downloadUrls URL_model config2526 page2526 ?lis = ?urls"
    by code_simp
  have v: "usableUrls_on URL_model ?urls
     = [''https://www.math.cuhk.edu.hk/course_builder/2526/MATH1010/'',
        ''https://www.math.cuhk.edu.hk/course_builder/2526/MATH1010/notes.pdf'',
        ''https://www.math.cuhk.edu.hk/course_builder/2526/MATH1010/hw1.pdf'']"
    by code_simp
  from classification_passes_rules [of URL_model config2526 page2526 "[]" "[]" ?lis]
  have "subseq (usableUrls_on URL_model (downloadUrls URL_model config2526 page2526 ?lis))
          (downloadUrls URL_model config2526 page2526 ?lis)"
    by blast
  then have "subseq (usableUrls_on URL_model ?urls) ?urls"
    by (simp only: d)
  with d v show ?thesis by (simp only:)
qed

section \<open>The rewrite pass over \<^verbatim>\<open>a[href]\<close>\<close>

text \<open>In the model, the host fix and the year rewrite leave the query and the fragment alone.\<close>

lemma normalizeUrl_query_fragment:
  assumes "parseURL h (Some loc) = Some target" "normalizeUrl cfg loc h = Some fixed"
  shows "query fixed = query target \<and> fragment fixed = fragment target"
  using assms
  by (auto simp: normalizeUrl_def Let_def set_pathname_def clear_port_def set_hostname_def
      split: if_splits option.splits)

lemma normalizeUrl_search_hash:
  assumes "parseURL h (Some loc) = Some target" "normalizeUrl cfg loc h = Some fixed"
  shows "search fixed = search target \<and> hash fixed = hash target"
  using normalizeUrl_query_fragment [OF assms] by (simp add: search_def hash_def)

text \<open>
  Claim C9, as the specification states it: in the serialised page every dropped anchor
  keeps its original \<^verbatim>\<open>href\<close>. It fails in the second variant of the script
  (\<^verbatim>\<open>src/unnamed/part_000\<close>) with a string map: the loop over \<^verbatim>\<open>[href]\<close>
  substitutes in the attribute of every element before the loop over \<^verbatim>\<open>a[href]\<close>
  runs. With the entry \<^verbatim>\<open>old\<close> \<open>\<mapsto>\<close> \<^verbatim>\<open>new\<close>, an anchor whose \<^verbatim>\<open>href\<close> starts
  with \<^verbatim>\<open>javascript:\<close> and an anchor under the staff prefix are dropped, and their
  \<^verbatim>\<open>href\<close> is changed.
\<close>

theorem rewrite_pass_string_map_counterexample:
  "startsWith ''javascript:old()'' ''javascript:''
   \<and> serializedHref URL_model config2526 page2526 [(''old'', ''new'')] ''javascript:old()''
     = ''javascript:new()''
   \<and> map_option href (normalizeUrl config2526 page2526 ''/~staff/old.html'')
     = Some ''https://www.math.cuhk.edu.hk/~staff/old.html''
   \<and> startsWith ''https://www.math.cuhk.edu.hk/~staff/old.html'' (staffPrefix config2526)
   \<and> serializedHref URL_model config2526 page2526 [(''old'', ''new'')] ''/~staff/old.html''
     = ''/~staff/new.html''"
proof -
  have a: "startsWith ''javascript:old()'' ''javascript:''"
    by code_simp
  have b: "serializedHref URL_model config2526 page2526 [(''old'', ''new'')] ''javascript:old()''
     = ''javascript:new()''"
    by code_simp
  have c: "map_option href (normalizeUrl config2526 page2526 ''/~staff/old.html'')
     = Some ''https://www.math.cuhk.edu.hk/~staff/old.html''"
    by code_simp
  have d: "startsWith ''https://www.math.cuhk.edu.hk/~staff/old.html'' (staffPrefix config2526)"
    by code_simp
  have e: "serializedHref URL_model config2526 page2526 [(''old'', ''new'')] ''/~staff/old.html''
     = ''/~staff/new.html''"
    by code_simp
  from a b c d e show ?thesis by blast
qed

text \<open>
  Claim C9, amended. In the serialised page the \<^verbatim>\<open>href\<close> of an anchor is what the
  loop over \<^verbatim>\<open>a[href]\<close> leaves of the attribute it reads, \<open>raw\<close>: the original
  attribute in \<^verbatim>\<open>src/index.ts\<close>, and in the second variant whenever the string map
  is empty or none of its keys occurs in the attribute; the attribute after the string
  map otherwise. For every \<^verbatim>\<open>URL\<close> class: a dropped anchor, whose \<open>raw\<close> is empty
  or starts with \<^verbatim>\<open>javascript:\<close>, does not parse, or normalises to a URL that starts
  with the staff prefix, keeps \<open>raw\<close>. Every other anchor has its \<^verbatim>\<open>href\<close>
  replaced: by the relative path followed by the query and the fragment of the normalised
  URL when that URL has the origin of the page and a path under
  \<^verbatim>\<open>/course_builder/\<close>, by the normalised URL otherwise. In the model of the
  \<^verbatim>\<open>URL\<close> class, the query and the fragment of the normalised URL are those of the
  link.
\<close>

theorem rewrite_pass_hrefs:
  "serializedHref cls cfg loc replacements v = rewrittenHref cls cfg loc (stringMapHref replacements v)
   \<and> stringMapHref [] v = v
   \<and> (list_all (\<lambda>entry. \<not> includes_str v (fst entry)) replacements \<longrightarrow>
        stringMapHref replacements v = v)
   \<and> (raw = [] \<or> startsWith raw ''javascript:'' \<longrightarrow> rewrittenHref cls cfg loc raw = raw)
   \<and> (new_URL cls raw (Some (get_href cls loc)) = None \<longrightarrow> rewrittenHref cls cfg loc raw = raw)
   \<and> (normalizeUrl_on cls cfg loc raw = Some fixed \<and> startsWith (get_href cls fixed) (staffPrefix cfg) \<longrightarrow>
        rewrittenHref cls cfg loc raw = raw)
   \<and> (normalizeUrl_on cls cfg loc raw = None \<longleftrightarrow> new_URL cls raw (Some (get_href cls loc)) = None)
   \<and> (raw \<noteq> [] \<and> \<not> startsWith raw ''javascript:''
        \<and> normalizeUrl_on cls cfg loc raw = Some fixed
        \<and> \<not> startsWith (get_href cls fixed) (staffPrefix cfg) \<longrightarrow>
        rewrittenHref cls cfg loc raw
          = (if get_origin cls fixed = get_origin cls loc
                \<and> startsWith (get_pathname cls fixed) ''/course_builder/''
             then toRelative (splitSegments (baseDir (get_pathname cls loc))) (get_pathname cls fixed)
                  @ get_search cls fixed @ get_hash cls fixed
             else get_href cls fixed))
   \<and> (url_ok page \<and> parseURL h (Some page) = Some target
        \<and> normalizeUrl_on URL_model cfg page h = Some fixed' \<longrightarrow>
        search fixed' = search target \<and> hash fixed' = hash target)"
proof -
  have s: "serializedHref cls cfg loc replacements v
             = rewrittenHref cls cfg loc (stringMapHref replacements v)"
    by (simp add: serializedHref_def)
  have m: "list_all (\<lambda>entry. \<not> includes_str v (fst entry)) replacements \<longrightarrow>
        stringMapHref replacements v = v"
    by (simp add: stringMapHref_unmatched)
  have js: "raw = [] \<or> startsWith raw ''javascript:'' \<longrightarrow> rewrittenHref cls cfg loc raw = raw"
    using rewriteHref_dropped [of raw cls loc cfg] by (auto simp: rewrittenHref_def)
  have bad: "new_URL cls raw (Some (get_href cls loc)) = None \<longrightarrow> rewrittenHref cls cfg loc raw = raw"
    using rewriteHref_dropped [of raw cls loc cfg] by (auto simp: rewrittenHref_def)
  have staff: "normalizeUrl_on cls cfg loc raw = Some fixed
        \<and> startsWith (get_href cls fixed) (staffPrefix cfg) \<longrightarrow>
        rewrittenHref cls cfg loc raw = raw"
    using rewriteHref_dropped [of raw cls loc cfg] by (auto simp: rewrittenHref_def)
  have new: "raw \<noteq> [] \<and> \<not> startsWith raw ''javascript:''
        \<and> normalizeUrl_on cls cfg loc raw = Some fixed
        \<and> \<not> startsWith (get_href cls fixed) (staffPrefix cfg) \<longrightarrow>
        rewrittenHref cls cfg loc raw
          = (if get_origin cls fixed = get_origin cls loc
                \<and> startsWith (get_pathname cls fixed) ''/course_builder/''
             then toRelative (splitSegments (baseDir (get_pathname cls loc))) (get_pathname cls fixed)
                  @ get_search cls fixed @ get_hash cls fixed
             else get_href cls fixed)"
    using rewriteHref_replaced [of raw cls cfg loc fixed] by (auto simp: rewrittenHref_def)
  have q: "url_ok page \<and> parseURL h (Some page) = Some target
        \<and> normalizeUrl_on URL_model cfg page h = Some fixed' \<longrightarrow>
        search fixed' = search target \<and> hash fixed' = hash target"
    using normalizeUrl_search_hash [of h page target cfg fixed']
    by (auto simp: normalizeUrl_on_model)
  from s m js bad staff new q stringMapHref_Nil [of v] normalizeUrl_on_None_iff [of cls cfg loc raw]
  show ?thesis by blast
qed

theorem rewrite_pass_hrefs_witness:
  "map (serializedHref URL_model config2526 page2526 [])
       [''javascript:void(0)'', ''https://www.math.cuhk.edu.hk:99999/x'', ''/~staff/y'', [],
        ''hw1.pdf?v=2#top'', ''https://137.189.49.33/other/z'']
     = [''javascript:void(0)'', ''https://www.math.cuhk.edu.hk:99999/x'', ''/~staff/y'', [],
        ''hw1.pdf?v=2#top'', ''https://www.math.cuhk.edu.hk/other/z'']
   \<and> serializedHref URL_model config2526 page2526 [(''old'', ''new'')] ''hw1.pdf?v=2#top''
     = ''hw1.pdf?v=2#top''"
proof -
  let ?s = "rewrittenHref URL_model config2526 page2526"
  let ?staff = "\<lparr>scheme = ''https'', hostname = ''www.math.cuhk.edu.hk'', port = [],
               segments = [''~staff'', ''y''], query = None, fragment = None\<rparr>"
  let ?hw = "\<lparr>scheme = ''https'', hostname = ''www.math.cuhk.edu.hk'', port = [],
                segments = [''course_builder'', ''2526'', ''MATH1010'', ''hw1.pdf''],
                query = Some ''v=2'', fragment = Some ''top''\<rparr>"
  let ?other = "\<lparr>scheme = ''https'', hostname = ''www.math.cuhk.edu.hk'', port = [],
                segments = [''other'', ''z''], query = None, fragment = None\<rparr>"
  have js: "startsWith ''javascript:void(0)'' ''javascript:''"
    by code_simp
  from rewrite_pass_hrefs [where cls = URL_model and cfg = config2526 and loc = page2526 and raw = "''javascript:void(0)''",
      THEN conjunct2, THEN conjunct2, THEN conjunct2, THEN conjunct1] js
  have 1: "?s ''javascript:void(0)'' = ''javascript:void(0)''"
    by blast
  have bad: "new_URL URL_model ''https://www.math.cuhk.edu.hk:99999/x''
               (Some (get_href URL_model page2526)) = None"
    by code_simp
  from rewrite_pass_hrefs [where cls = URL_model and cfg = config2526 and loc = page2526
      and raw = "''https://www.math.cuhk.edu.hk:99999/x''",
      THEN conjunct2, THEN conjunct2, THEN conjunct2, THEN conjunct2, THEN conjunct1] bad
  have 2: "?s ''https://www.math.cuhk.edu.hk:99999/x'' = ''https://www.math.cuhk.edu.hk:99999/x''"
    by blast
  have staff: "normalizeUrl_on URL_model config2526 page2526 ''/~staff/y'' = Some ?staff"
    "startsWith (get_href URL_model ?staff) (staffPrefix config2526)"
    by code_simp+
  from rewrite_pass_hrefs [where cls = URL_model and cfg = config2526 and loc = page2526
      and raw = "''/~staff/y''" and fixed = ?staff,
      THEN conjunct2, THEN conjunct2, THEN conjunct2, THEN conjunct2, THEN conjunct2, THEN conjunct1] staff
  have 3: "?s ''/~staff/y'' = ''/~staff/y''"
    by blast
  from rewrite_pass_hrefs [where cls = URL_model and cfg = config2526 and loc = page2526 and raw = "[]",
      THEN conjunct2, THEN conjunct2, THEN conjunct2, THEN conjunct1]
  have 4: "?s [] = []"
    by blast
  have n1: "''hw1.pdf?v=2#top'' \<noteq> [] \<and> \<not> startsWith ''hw1.pdf?v=2#top'' ''javascript:''
      \<and> normalizeUrl_on URL_model config2526 page2526 ''hw1.pdf?v=2#top'' = Some ?hw
      \<and> \<not> startsWith (get_href URL_model ?hw) (staffPrefix config2526)"
    by code_simp
  have v1: "(if get_origin URL_model ?hw = get_origin URL_model page2526
                \<and> startsWith (get_pathname URL_model ?hw) ''/course_builder/''
             then toRelative (splitSegments (baseDir (get_pathname URL_model page2526)))
                    (get_pathname URL_model ?hw)
                  @ get_search URL_model ?hw @ get_hash URL_model ?hw
             else get_href URL_model ?hw) = ''hw1.pdf?v=2#top''"
    by code_simp
  from rewrite_pass_hrefs [where cls = URL_model and cfg = config2526 and loc = page2526
      and raw = "''hw1.pdf?v=2#top''" and fixed = ?hw,
      THEN conjunct2, THEN conjunct2, THEN conjunct2, THEN conjunct2, THEN conjunct2, THEN conjunct2, THEN conjunct2, THEN conjunct1, THEN mp, OF n1]
  have 5: "?s ''hw1.pdf?v=2#top'' = ''hw1.pdf?v=2#top''"
    by (simp only: v1)
  have n2: "''https://137.189.49.33/other/z'' \<noteq> []
      \<and> \<not> startsWith ''https://137.189.49.33/other/z'' ''javascript:''
      \<and> normalizeUrl_on URL_model config2526 page2526 ''https://137.189.49.33/other/z''
        = Some ?other
      \<and> \<not> startsWith (get_href URL_model ?other) (staffPrefix config2526)"
    by code_simp
  have v2: "(if get_origin URL_model ?other = get_origin URL_model page2526
                \<and> startsWith (get_pathname URL_model ?other) ''/course_builder/''
             then toRelative (splitSegments (baseDir (get_pathname URL_model page2526)))
                    (get_pathname URL_model ?other)
                  @ get_search URL_model ?other @ get_hash URL_model ?other
             else get_href URL_model ?other) = ''https://www.math.cuhk.edu.hk/other/z''"
    by code_simp
  from rewrite_pass_hrefs [where cls = URL_model and cfg = config2526 and loc = page2526
      and raw = "''https://137.189.49.33/other/z''" and fixed = ?other,
      THEN conjunct2, THEN conjunct2, THEN conjunct2, THEN conjunct2, THEN conjunct2, THEN conjunct2, THEN conjunct2, THEN conjunct1, THEN mp, OF n2]
  have 6: "?s ''https://137.189.49.33/other/z'' = ''https://www.math.cuhk.edu.hk/other/z''"
    by (simp only: v2)
  have u: "list_all (\<lambda>entry. \<not> includes_str ''hw1.pdf?v=2#top'' (fst entry)) [(''old'', ''new'')]"
    by code_simp
  from rewrite_pass_hrefs [where cls = URL_model and cfg = config2526 and loc = page2526
      and v = "''hw1.pdf?v=2#top''" and replacements = "[(''old'', ''new'')]",
      THEN conjunct2, THEN conjunct2, THEN conjunct1, THEN mp, OF u]
  have 7: "serializedHref URL_model config2526 page2526 [(''old'', ''new'')] ''hw1.pdf?v=2#top''
      = ?s ''hw1.pdf?v=2#top''"
    by (simp only: serializedHref_def)
  have 8: "serializedHref URL_model config2526 page2526 [] v = ?s v" for v
    by (simp only: serializedHref_def stringMapHref_Nil)
  from 1 2 3 4 5 6 7 show ?thesis
    by (simp only: 8 list.map)
qed

section \<open>UrlNormalizer: a second normalisation\<close>

lemma url_ok_page2526: "url_ok page2526"
  unfolding page2526_def by code_simp

lemma url_ok_page2223: "url_ok page2223"
  unfolding page2223_def by code_simp

lemma normalizeUrl_result:
  assumes "url_ok loc"
    and "applyYearRewrite cfg \<longrightarrow> year_shape (yearPrefix cfg @ courseYearDigits cfg)"
    and "parseURL h (Some loc) = Some target"
  shows "normalizeUrl cfg loc h =
           Some (if applyYearRewrite cfg
                 then (host_fix cfg target)
                        \<lparr>segments := year_segments (yearPrefix cfg @ courseYearDigits cfg)
                                       (segments (host_fix cfg target))\<rparr>
                 else host_fix cfg target)"
proof -
  from assms(1,3) have "url_ok target" by (intro parseURL_ok [of "Some loc" h]) simp_all
  then have ok: "url_ok (host_fix cfg target)" by (rule host_fix_ok)
  show ?thesis
  proof (cases "applyYearRewrite cfg")
    case True
    with assms(2) have "year_shape (yearPrefix cfg @ courseYearDigits cfg)" by simp
    from set_pathname_replace_year [OF ok this] True assms(3) show ?thesis
      by (simp add: normalizeUrl_unfold)
  next
    case False
    with assms(3) show ?thesis by (simp add: normalizeUrl_unfold)
  qed
qed

text \<open>
  Claim C7. For a page URL as the parser returns it, an \<^verbatim>\<open>href\<close> that parses against
  it, and a configuration (host fix on or off with any pair of hosts, year rewrite off,
  or on with a prefix and digits of the shape of a year), normalising the string form of
  the normalised URL gives the same URL.
\<close>

theorem normalizeUrl_idempotent:
  assumes "url_ok loc"
    and "applyYearRewrite cfg \<longrightarrow> year_shape (yearPrefix cfg @ courseYearDigits cfg)"
    and "normalizeUrl cfg loc h = Some u"
  shows "normalizeUrl cfg loc (href u) = Some u"
proof -
  let ?r = "yearPrefix cfg @ courseYearDigits cfg"
  from assms(3) obtain target where t: "parseURL h (Some loc) = Some target"
    by (auto simp: normalizeUrl_unfold split: option.splits)
  let ?t1 = "host_fix cfg target"
  from normalizeUrl_result [OF assms(1,2) t] assms(3)
  have u: "u = (if applyYearRewrite cfg then ?t1\<lparr>segments := year_segments ?r (segments ?t1)\<rparr> else ?t1)"
    by simp
  have ok: "url_ok u" using assms(1,3) by (rule normalizeUrl_ok)
  then have again: "parseURL (href u) (Some loc) = Some u" by (rule parseURL_href)
  have "hostname u = hostname ?t1" "port u = port ?t1" by (simp_all add: u)
  then have host: "host_fix cfg u = u" by (rule host_fix_again)
  have year: "u\<lparr>segments := year_segments ?r (segments u)\<rparr> = u" if "applyYearRewrite cfg"
  proof -
    from that assms(2) have "year_shape ?r" by simp
    then have "year_segments ?r (year_segments ?r (segments ?t1)) = year_segments ?r (segments ?t1)"
      by (rule year_segments_idem)
    with that show ?thesis by (simp add: u)
  qed
  from normalizeUrl_result [OF assms(1,2) again] host year show ?thesis
    by (cases "applyYearRewrite cfg") simp_all
qed

theorem normalizeUrl_idempotent_witness:
  "normalizeUrl config_2425 page2223 ''https://137.189.49.33:8443/Course_Builder/2223/MATH1010/a b.pdf?x=1#top''
     = Some \<lparr>scheme = ''https'', hostname = ''137.189.49.33'', port = ''8443'',
              segments = [''Course_Builder'', ''_2425'', ''MATH1010'', ''a%20b.pdf''],
              query = Some ''x=1'', fragment = Some ''top''\<rparr>
   \<and> normalizeUrl config_2425 page2223
       (href \<lparr>scheme = ''https'', hostname = ''137.189.49.33'', port = ''8443'',
              segments = [''Course_Builder'', ''_2425'', ''MATH1010'', ''a%20b.pdf''],
              query = Some ''x=1'', fragment = Some ''top''\<rparr>)
     = Some \<lparr>scheme = ''https'', hostname = ''137.189.49.33'', port = ''8443'',
              segments = [''Course_Builder'', ''_2425'', ''MATH1010'', ''a%20b.pdf''],
              query = Some ''x=1'', fragment = Some ''top''\<rparr>
   \<and> href \<lparr>scheme = ''https'', hostname = ''137.189.49.33'', port = ''8443'',
              segments = [''Course_Builder'', ''_2425'', ''MATH1010'', ''a%20b.pdf''],
              query = Some ''x=1'', fragment = Some ''top''\<rparr>
     = ''https://137.189.49.33:8443/Course_Builder/_2425/MATH1010/a%20b.pdf?x=1#top''"
proof -
  let ?u = "\<lparr>scheme = ''https'', hostname = ''137.189.49.33'', port = ''8443'',
              segments = [''Course_Builder'', ''_2425'', ''MATH1010'', ''a%20b.pdf''],
              query = Some ''x=1'', fragment = Some ''top''\<rparr>"
  have y: "applyYearRewrite config_2425 \<longrightarrow>
             year_shape (yearPrefix config_2425 @ courseYearDigits config_2425)"
    unfolding config_2425_def by code_simp
  have n: "normalizeUrl config_2425 page2223
             ''https://137.189.49.33:8443/Course_Builder/2223/MATH1010/a b.pdf?x=1#top'' = Some ?u"
    unfolding config_2425_def page2223_def by code_simp
  have s: "href ?u = ''https://137.189.49.33:8443/Course_Builder/_2425/MATH1010/a%20b.pdf?x=1#top''"
    by code_simp
  from normalizeUrl_idempotent [OF url_ok_page2223 y n] n s show ?thesis
    by simp
qed

section \<open>UrlNormalizer: the place of the year rewrite\<close>

lemma host_fix_fields:
  "segments (host_fix cfg t) = segments t \<and> query (host_fix cfg t) = query t
   \<and> fragment (host_fix cfg t) = fragment t \<and> scheme (host_fix cfg t) = scheme t"
  by (simp add: host_fix_def set_hostname_host_of clear_port_def split: option.splits)

text \<open>
  Claim C8, as the specification states it: with the year rewrite on, the segment of the
  shape of a year that follows the anchor \<^verbatim>\<open>course_builder\<close> is replaced. The
  statement fails for a year that is the last segment of the path, which stays as it is,
  and for a second anchor with a year, of which only the first is rewritten.
\<close>

theorem year_rewrite_counterexample:
  "map_option pathname (normalizeUrl config2425 page2223 ''/course_builder/2223'')
     = Some ''/course_builder/2223''
   \<and> map_option pathname
       (normalizeUrl config2425 page2223 ''/course_builder/2223/course_builder/2223/x'')
     = Some ''/course_builder/2425/course_builder/2223/x''"
proof -
  have a: "map_option pathname (normalizeUrl config2425 page2223 ''/course_builder/2223'')
     = Some ''/course_builder/2223''"
    unfolding config2425_def page2223_def by code_simp
  have b: "map_option pathname
       (normalizeUrl config2425 page2223 ''/course_builder/2223/course_builder/2223/x'')
     = Some ''/course_builder/2425/course_builder/2223/x''"
    unfolding config2425_def page2223_def by code_simp
  from a b show ?thesis by blast
qed

text \<open>
  Claim C8, amended. With the year rewrite on and a prefix and digits of the shape of a
  year, \<^verbatim>\<open>normalizeUrl\<close> replaces the first segment that has the shape of a year
  (four digits, an underscore before them or not), follows a segment
  \<^verbatim>\<open>course_builder\<close> in any case and is itself followed by a slash, by the prefix
  and the digits. Every other segment, the query and the fragment stay as they are; a
  path without such a place, and so a path without the anchor, is unchanged. The three
  examples of the specification evaluate as given, and the anchor matches in upper case
  too.
\<close>

theorem year_rewrite_first_place:
  assumes "url_ok loc" and "applyYearRewrite cfg"
    and "year_shape (yearPrefix cfg @ courseYearDigits cfg)"
    and "parseURL h (Some loc) = Some target"
  shows "(\<exists>u. normalizeUrl cfg loc h = Some u
            \<and> segments u = year_segments (yearPrefix cfg @ courseYearDigits cfg) (segments target)
            \<and> query u = query target \<and> fragment u = fragment target)
         \<and> ((year_segments (yearPrefix cfg @ courseYearDigits cfg) (segments target) = segments target
              \<and> (\<forall>i. \<not> anchor_year (segments target) i))
            \<or> (\<exists>i. anchor_year (segments target) i
                  \<and> (\<forall>j<i. \<not> anchor_year (segments target) j)
                  \<and> year_segments (yearPrefix cfg @ courseYearDigits cfg) (segments target)
                      = (segments target)[i + 1 := yearPrefix cfg @ courseYearDigits cfg]))
         \<and> ((\<forall>s \<in> set (segments target). map ascii_lower s \<noteq> ''course_builder'') \<longrightarrow>
               year_segments (yearPrefix cfg @ courseYearDigits cfg) (segments target) = segments target)
         \<and> map_option pathname (normalizeUrl config2425 page2223 ''/course_builder/2223/x'')
             = Some ''/course_builder/2425/x''
         \<and> map_option pathname (normalizeUrl config_2425 page2223 ''/course_builder/_2223/x'')
             = Some ''/course_builder/_2425/x''
         \<and> map_option pathname (normalizeUrl config2425 page2223 ''/other/2223/x'')
             = Some ''/other/2223/x''
         \<and> map_option pathname (normalizeUrl config2425 page2223 ''/COURSE_Builder/2223/x/1234/y'')
             = Some ''/COURSE_Builder/2425/x/1234/y''"
proof -
  let ?r = "yearPrefix cfg @ courseYearDigits cfg"
  from assms(2,3) have y: "applyYearRewrite cfg \<longrightarrow> year_shape ?r" by simp
  from normalizeUrl_result [OF assms(1) y assms(4)] assms(2) host_fix_fields [of cfg target]
  have n: "\<exists>u. normalizeUrl cfg loc h = Some u
            \<and> segments u = year_segments ?r (segments target)
            \<and> query u = query target \<and> fragment u = fragment target"
    by simp
  note f = year_segments_first [of ?r "segments target"]
  have a: "(\<forall>s \<in> set (segments target). map ascii_lower s \<noteq> ''course_builder'') \<longrightarrow>
               year_segments ?r (segments target) = segments target"
    using year_segments_no_anchor [of "segments target" ?r] by blast
  have e1: "map_option pathname (normalizeUrl config2425 page2223 ''/course_builder/2223/x'')
             = Some ''/course_builder/2425/x''"
    unfolding config2425_def page2223_def by code_simp
  have e2: "map_option pathname (normalizeUrl config_2425 page2223 ''/course_builder/_2223/x'')
             = Some ''/course_builder/_2425/x''"
    unfolding config_2425_def page2223_def by code_simp
  have e3: "map_option pathname (normalizeUrl config2425 page2223 ''/other/2223/x'')
             = Some ''/other/2223/x''"
    unfolding config2425_def page2223_def by code_simp
  have e4: "map_option pathname (normalizeUrl config2425 page2223 ''/COURSE_Builder/2223/x/1234/y'')
             = Some ''/COURSE_Builder/2425/x/1234/y''"
    unfolding config2425_def page2223_def by code_simp
  from n f a e1 e2 e3 e4 show ?thesis by blast
qed

theorem year_rewrite_first_place_witness:
  "normalizeUrl config2425 page2223 ''../../_2122/MATH2020/2223/hw.pdf?y=2223''
     = Some \<lparr>scheme = ''https'', hostname = ''www.math.cuhk.edu.hk'', port = [],
              segments = [''course_builder'', ''2425'', ''MATH2020'', ''2223'', ''hw.pdf''],
              query = Some ''y=2223'', fragment = None\<rparr>
   \<and> year_segments ''2425'' [''course_builder'', ''_2122'', ''MATH2020'', ''2223'', ''hw.pdf'']
     = [''course_builder'', ''_2122'', ''MATH2020'', ''2223'', ''hw.pdf''][0 + 1 := ''2425'']
   \<and> anchor_year [''course_builder'', ''_2122'', ''MATH2020'', ''2223'', ''hw.pdf''] 0"
proof -
  let ?t = "\<lparr>scheme = ''https'', hostname = ''www.math.cuhk.edu.hk'', port = [],
              segments = [''course_builder'', ''_2122'', ''MATH2020'', ''2223'', ''hw.pdf''],
              query = Some ''y=2223'', fragment = None\<rparr>"
  have a: "applyYearRewrite config2425"
    by (simp add: config2425_def)
  have y: "year_shape (yearPrefix config2425 @ courseYearDigits config2425)"
    unfolding config2425_def by code_simp
  have p: "parseURL ''../../_2122/MATH2020/2223/hw.pdf?y=2223'' (Some page2223) = Some ?t"
    unfolding page2223_def by code_simp
  have r: "yearPrefix config2425 @ courseYearDigits config2425 = ''2425''"
    by (simp add: config2425_def)
  have s: "year_segments ''2425'' [''course_builder'', ''_2122'', ''MATH2020'', ''2223'', ''hw.pdf'']
     = [''course_builder'', ''2425'', ''MATH2020'', ''2223'', ''hw.pdf'']"
    by code_simp
  have k: "anchor_year [''course_builder'', ''_2122'', ''MATH2020'', ''2223'', ''hw.pdf''] 0"
    by code_simp
  from year_rewrite_first_place [OF url_ok_page2223 a y p]
  obtain u where "normalizeUrl config2425 page2223 ''../../_2122/MATH2020/2223/hw.pdf?y=2223'' = Some u"
    and "segments u = year_segments (yearPrefix config2425 @ courseYearDigits config2425) (segments ?t)"
    by blast
  moreover have n: "normalizeUrl config2425 page2223 ''../../_2122/MATH2020/2223/hw.pdf?y=2223''
     = Some \<lparr>scheme = ''https'', hostname = ''www.math.cuhk.edu.hk'', port = [],
              segments = [''course_builder'', ''2425'', ''MATH2020'', ''2223'', ''hw.pdf''],
              query = Some ''y=2223'', fragment = None\<rparr>"
    unfolding config2425_def page2223_def by code_simp
  ultimately show ?thesis using s k by simp
qed

section \<open>LocalTarget: the segments of the local path\<close>

text \<open>
  For an \<^verbatim>\<open>http\<close> or \<^verbatim>\<open>https\<close> URL of the model, whose parser removes the dot
  segments, also those written \<^verbatim>\<open>%2e\<close>: no decoded segment is empty or a dot
  segment.
\<close>

lemma localSegments_no_dot_segments:
  assumes "localSegments url_str = Inr decoded"
  shows "list_all (\<lambda>d. d \<noteq> [] \<and> d \<noteq> ''.'' \<and> d \<noteq> ''..'') decoded"
proof -
  from localSegments_parts [OF assms] obtain ps where "decode_all ps = Some decoded"
    and "list_all (\<lambda>p. seg_ok p \<and> p \<noteq> []) ps"
    by blast
  then show ?thesis by (rule decode_all_ok)
qed

text \<open>
  The segments of the path say nothing about the directory it lies in. A segment with an
  encoded slash is decoded to several names with slashes between them, and
  \<^verbatim>\<open>path.join\<close> resolves the \<^verbatim>\<open>..\<close> among them: the local path of the URL below
  has no \<^verbatim>\<open>..\<close> segment, and it lies outside the download root \<^verbatim>\<open>/home/u/dl\<close>.
\<close>

lemma localPathFromUrl_encoded_slash:
  "localPathFromUrl [''home'', ''u'', ''dl'']
       ''https://www.math.cuhk.edu.hk/course_builder/..%2F..%2F.ssh%2Fauthorized_keys''
     = Inr ([''home'', ''.ssh'', ''authorized_keys''], False)"
proof -
  have a: "localSegments ''https://www.math.cuhk.edu.hk/course_builder/..%2F..%2F.ssh%2Fauthorized_keys''
     = Inr [''../../.ssh/authorized_keys'']"
    by code_simp
  have c: "path_join [''home'', ''u'', ''dl''] [''../../.ssh/authorized_keys'']
     = ([''home'', ''.ssh'', ''authorized_keys''], False)"
    by code_simp
  from a c show ?thesis
    by (simp only: localPathFromUrl_def sum.case)
qed



end
